theory Spec2Isabelle
  imports Complex_Main "HOL-Library.Char_ord" "HOL-Library.List_Lexorder"
begin

section \<open>Python values\<close>

text \<open>
  The cells of a report row are dynamically typed Python values: \<open>None\<close>, an
  \<open>int\<close>, a \<open>float\<close> or a \<open>str\<close>. A finite float is represented by the rational
  number it denotes (every finite double is a rational); the two infinities and NaN are
  separate values, because \<open>int(v)\<close> raises on them.
\<close>

datatype pyfloat = Finite rat | PInf | NInf | NaN

datatype pyval = PNone | PInt int | PFloat pyfloat | PStr string

datatype error = ValueError | OverflowError | IndexError | AttributeError

text \<open>\<open>int(v)\<close> for a float: truncation towards zero; OverflowError on an infinity,
  ValueError on NaN.\<close>

fun py_int :: "pyfloat \<Rightarrow> error + int" where
  "py_int (Finite q) = Inr (if 0 \<le> q then \<lfloor>q\<rfloor> else \<lceil>q\<rceil>)"
| "py_int PInf = Inl OverflowError"
| "py_int NInf = Inl OverflowError"
| "py_int NaN = Inl ValueError"

text \<open>\<open>a != b\<close> on Python values: numbers compare by value across \<open>int\<close> and
  \<open>float\<close>, NaN differs from everything (itself included), values of unrelated types
  differ.\<close>

fun float_ne :: "pyfloat \<Rightarrow> pyfloat \<Rightarrow> bool" where
  "float_ne (Finite a) (Finite b) = (a \<noteq> b)"
| "float_ne PInf PInf = False"
| "float_ne NInf NInf = False"
| "float_ne _ _ = True"

fun py_ne :: "pyval \<Rightarrow> pyval \<Rightarrow> bool" where
  "py_ne PNone PNone = False"
| "py_ne (PInt a) (PInt b) = (a \<noteq> b)"
| "py_ne (PInt a) (PFloat f) = float_ne (Finite (of_int a)) f"
| "py_ne (PFloat f) (PInt b) = float_ne f (Finite (of_int b))"
| "py_ne (PFloat f) (PFloat g) = float_ne f g"
| "py_ne (PStr s) (PStr t) = (s \<noteq> t)"
| "py_ne _ _ = True"

text \<open>\<open>sep.join(xs)\<close>.\<close>

fun py_join :: "string \<Rightarrow> string list \<Rightarrow> string" where
  "py_join sep [] = []"
| "py_join sep [x] = x"
| "py_join sep (x # y # ys) = x @ sep @ py_join sep (y # ys)"

text \<open>The format \<open>f"0x{n:X}"\<close>: upper-case hexadecimal without leading zeros.\<close>

definition hex_digit :: "nat \<Rightarrow> char" where
  "hex_digit d = (if d < 10 then char_of (48 + d) else char_of (55 + d))"

function hex_digits :: "nat \<Rightarrow> string" where
  "hex_digits n = (if n < 16 then [hex_digit n] else hex_digits (n div 16) @ [hex_digit (n mod 16)])"
  by pat_completeness auto
termination
  by (relation "measure id") auto

declare hex_digits.simps [simp del]

definition hex_id :: "nat \<Rightarrow> string" where
  "hex_id n = ''0x'' @ hex_digits n"

section \<open>Ordered dictionaries\<close>

text \<open>
  \<open>OrderedDict\<close> (and the insertion-ordered \<open>dict\<close>) is an association list: \<open>d[k] = v\<close>
  replaces the value of a key that is present, in place, and appends a new key at the
  end; \<open>d.get(k)\<close> is \<open>map_of\<close>; \<open>keys()\<close>, \<open>values()\<close> and \<open>items()\<close> read the list in
  order.
\<close>

fun od_set :: "'k \<Rightarrow> 'v \<Rightarrow> ('k \<times> 'v) list \<Rightarrow> ('k \<times> 'v) list" where
  "od_set k v [] = [(k, v)]"
| "od_set k v ((k', v') # d) = (if k' = k then (k, v) # d else (k', v') # od_set k v d)"

definition od_get :: "('k \<times> 'v) list \<Rightarrow> 'k \<Rightarrow> 'v option" where
  "od_get d k = map_of d k"

definition od_keys :: "('k \<times> 'v) list \<Rightarrow> 'k list" where
  "od_keys d = map fst d"

definition od_values :: "('k \<times> 'v) list \<Rightarrow> 'v list" where
  "od_values d = map snd d"

text \<open>\<open>list(OrderedDict.fromkeys(xs))\<close>: the elements of \<open>xs\<close> in order of first
  occurrence.\<close>

fun fromkeys_acc :: "'a list \<Rightarrow> 'a list \<Rightarrow> 'a list" where
  "fromkeys_acc acc [] = acc"
| "fromkeys_acc acc (x # xs) = (if x \<in> set acc then fromkeys_acc acc xs else fromkeys_acc (acc @ [x]) xs)"

definition fromkeys :: "'a list \<Rightarrow> 'a list" where
  "fromkeys xs = fromkeys_acc [] xs"

section \<open>The data model\<close>

record Signal =
  sg_name :: string
  start_bit :: nat
  sg_length :: nat
  byte_order :: nat
  value_type :: string
  factor :: pyfloat
  offset :: pyfloat
  minimum :: pyfloat
  maximum :: pyfloat
  sg_unit :: string
  receivers :: "string list"
  sg_comment :: string
  value_desc :: string
  invalid_value :: string
  start_value :: int
  inactive_value :: int
  sg_send_type :: int
  timeout_time :: int
  sg_long_symbol :: string

record Message =
  msg_id :: nat
  msg_name :: string
  dlc :: nat
  transmitter :: string
  signals :: "(string \<times> Signal) list"
  msg_comment :: string
  cycle_time :: int
  cycle_time_fast :: int
  cycle_time_active :: int
  msg_send_type :: int
  nr_of_repetition :: int
  delay_time :: int
  start_delay_time :: int
  il_support :: int
  nm_message :: int
  nm_asr_message :: int
  vframe_format :: int
  canfd_brs :: int
  diag_request :: int
  diag_response :: int
  diag_state :: int
  msg_long_symbol :: string

record DBCDatabase =
  messages :: "(nat \<times> Message) list"
  nodes :: "string list"
  bus_type :: string
  db_name :: string
  baudrate :: int
  baudrate_canfd :: int

text \<open>The constructors \<open>Signal()\<close>, \<open>Message()\<close> and \<open>DBCDatabase()\<close> with their
  defaults.\<close>

definition new_Signal :: Signal where
  "new_Signal = \<lparr> sg_name = '''', start_bit = 0, sg_length = 0, byte_order = 0,
     value_type = ''+'', factor = Finite 1, offset = Finite 0, minimum = Finite 0,
     maximum = Finite 0, sg_unit = '''', receivers = [], sg_comment = '''',
     value_desc = '''', invalid_value = '''', start_value = 0, inactive_value = 0,
     sg_send_type = 0, timeout_time = 0, sg_long_symbol = '''' \<rparr>"

definition new_Message :: Message where
  "new_Message = \<lparr> msg_id = 0, msg_name = '''', dlc = 0, transmitter = '''', signals = [],
     msg_comment = '''', cycle_time = 0, cycle_time_fast = 0, cycle_time_active = 0,
     msg_send_type = 0, nr_of_repetition = 0, delay_time = 0, start_delay_time = 0,
     il_support = 1, nm_message = 0, nm_asr_message = 0, vframe_format = 14,
     canfd_brs = 1, diag_request = 0, diag_response = 0, diag_state = 0,
     msg_long_symbol = '''' \<rparr>"

definition new_DBCDatabase :: DBCDatabase where
  "new_DBCDatabase = \<lparr> messages = [], nodes = [], bus_type = '''', db_name = '''',
     baudrate = 500000, baudrate_canfd = 2000000 \<rparr>"

definition endian_str :: "Signal \<Rightarrow> string" where
  "endian_str s = (if byte_order s = 0 then ''big'' else ''little'')"

definition signed_str :: "Signal \<Rightarrow> string" where
  "signed_str s = (if value_type s = ''-'' then ''signed'' else ''unsigned'')"

definition natural_start_bit :: "Signal \<Rightarrow> nat" where
  "natural_start_bit s = start_bit s"

definition sg_display_name :: "Signal \<Rightarrow> string" where
  "sg_display_name s =
     (if sg_long_symbol s \<noteq> '''' \<and> sg_long_symbol s \<noteq> sg_name s then sg_long_symbol s
      else sg_name s)"

definition msg_display_name :: "Message \<Rightarrow> string" where
  "msg_display_name m =
     (if msg_long_symbol m \<noteq> '''' \<and> msg_long_symbol m \<noteq> msg_name m then msg_long_symbol m
      else msg_name m)"

section \<open>Column layout and enum tables\<close>

definition NUM_MSG_COLS :: nat where "NUM_MSG_COLS = 19"
definition NUM_SIG_COLS :: nat where "NUM_SIG_COLS = 18"
definition NUM_COLS_PER_SIDE :: nat where "NUM_COLS_PER_SIDE = NUM_MSG_COLS + NUM_SIG_COLS"

definition MSG_SEND_TYPE_ENUM :: "string list" where
  "MSG_SEND_TYPE_ENUM = [''Cyclic'', ''NoMsgSendType'', ''NotUsed'', ''NotUsed'', ''NotUsed'',
     ''NotUsed'', ''NotUsed'', ''IfActive'', ''NoMsgSendType'', ''NotUsed'']"

definition SIG_SEND_TYPE_ENUM :: "string list" where
  "SIG_SEND_TYPE_ENUM = [''Cyclic'', ''NoSigSendType'', ''OnWriteWithRepetition'', ''OnChange'',
     ''OnChangeWithRepetition'', ''IfActive'', ''IfActiveWithRepetition'', ''NoSigSendType'']"

definition VFRAME_FORMAT_ENUM :: "string list" where
  "VFRAME_FORMAT_ENUM = [''StandardCAN'', ''ExtendedCAN'', ''reserved'', ''J1939PG'',
     ''reserved'', ''reserved'', ''reserved'', ''reserved'',
     ''reserved'', ''reserved'', ''reserved'', ''reserved'',
     ''reserved'', ''reserved'', ''StandardCAN_FD'', ''ExtendedCAN_FD'']"

definition CANFD_BRS_ENUM :: "string list" where "CANFD_BRS_ENUM = [''0'', ''1'']"
definition DIAG_ENUM :: "string list" where "DIAG_ENUM = [''No'', ''Yes'']"
definition IL_ENUM :: "string list" where "IL_ENUM = [''No'', ''Yes'']"
definition NM_ENUM :: "string list" where "NM_ENUM = [''No'', ''Yes'']"

text \<open>\<open>enum_lookup\<close>: the index is an \<open>int\<close> here, so \<open>int(index)\<close> cannot raise and
  the \<open>except\<close> branch is dead.\<close>

definition enum_lookup :: "string list \<Rightarrow> int \<Rightarrow> string \<Rightarrow> string" where
  "enum_lookup enum_list idx dflt =
     (if 0 \<le> idx \<and> idx < int (length enum_list) then enum_list ! nat idx else dflt)"

section \<open>Comparison logic\<close>

text \<open>\<open>format_number\<close> and \<open>normalize_val\<close> share one body: a float that equals
  its integer truncation becomes that \<open>int\<close>. The test \<open>val == int(val)\<close> evaluates
  \<open>int(val)\<close> first, which raises on an infinity or NaN.\<close>

fun format_number :: "pyval \<Rightarrow> error + pyval" where
  "format_number (PFloat f) =
     (case py_int f of
        Inl e \<Rightarrow> Inl e
      | Inr i \<Rightarrow> Inr (if \<not> float_ne f (Finite (of_int i)) then PInt i else PFloat f))"
| "format_number v = Inr v"

fun normalize_val :: "pyval \<Rightarrow> error + pyval" where
  "normalize_val PNone = Inr PNone"
| "normalize_val (PFloat f) =
     (case py_int f of
        Inl e \<Rightarrow> Inl e
      | Inr i \<Rightarrow> Inr (if \<not> float_ne f (Finite (of_int i)) then PInt i else PFloat f))"
| "normalize_val v = Inr v"

text \<open>\<open>x if x else None\<close> and \<open>x if x else ""\<close> for a string \<open>x\<close>.\<close>

definition or_none :: "string \<Rightarrow> pyval" where
  "or_none s = (if s \<noteq> [] then PStr s else PNone)"

definition msg_part :: "Message \<Rightarrow> pyval list" where
  "msg_part msg =
     [ PStr (hex_id (msg_id msg)),
       PStr (msg_display_name msg),
       PStr (enum_lookup MSG_SEND_TYPE_ENUM (msg_send_type msg) ''Cyclic''),
       PInt (cycle_time msg),
       PInt (cycle_time_fast msg),
       PInt (cycle_time_active msg),
       PInt (nr_of_repetition msg),
       PInt (delay_time msg),
       PInt (start_delay_time msg),
       PInt (int (dlc msg)),
       PStr (enum_lookup VFRAME_FORMAT_ENUM (vframe_format msg) ''StandardCAN_FD''),
       PStr (enum_lookup CANFD_BRS_ENUM (canfd_brs msg) ''1''),
       PStr (transmitter msg),
       PStr (enum_lookup IL_ENUM (il_support msg) ''Yes''),
       PStr (enum_lookup NM_ENUM (nm_message msg) ''No''),
       PStr (enum_lookup DIAG_ENUM (diag_request msg) ''No''),
       PStr (enum_lookup DIAG_ENUM (diag_response msg) ''No''),
       PStr (enum_lookup DIAG_ENUM (diag_state msg) ''No''),
       or_none (msg_comment msg) ]"

text \<open>\<open>build_signal_row\<close>: the four \<open>format_number\<close> calls run in the order scale,
  offset, min, max; the first one that raises ends the call.\<close>

definition build_signal_row :: "Message \<Rightarrow> Signal \<Rightarrow> error + pyval list" where
  "build_signal_row msg sg =
     (case format_number (PFloat (factor sg)) of Inl e \<Rightarrow> Inl e | Inr sc \<Rightarrow>
      case format_number (PFloat (offset sg)) of Inl e \<Rightarrow> Inl e | Inr off \<Rightarrow>
      case format_number (PFloat (minimum sg)) of Inl e \<Rightarrow> Inl e | Inr mn \<Rightarrow>
      case format_number (PFloat (maximum sg)) of Inl e \<Rightarrow> Inl e | Inr mx \<Rightarrow>
      Inr (msg_part msg @
        [ PStr (sg_display_name sg),
          PInt (int (natural_start_bit sg)),
          PInt (int (sg_length sg)),
          PStr (endian_str sg),
          PStr (signed_str sg),
          sc, off, mn, mx,
          or_none (sg_unit sg),
          or_none (invalid_value sg),
          PInt (start_value sg),
          PInt (inactive_value sg),
          PStr (enum_lookup SIG_SEND_TYPE_ENUM (sg_send_type sg) ''Cyclic''),
          PInt (timeout_time sg),
          or_none (value_desc sg),
          or_none (sg_comment sg),
          PStr (py_join '', '' (receivers sg)) ]))"

definition build_empty_msg_row :: "Message \<Rightarrow> pyval list" where
  "build_empty_msg_row msg = msg_part msg @ replicate NUM_SIG_COLS PNone"

definition build_empty_row :: "pyval list" where
  "build_empty_row = replicate NUM_COLS_PER_SIDE PNone"

text \<open>\<open>check_row_diff\<close>: the loop over \<open>range(len(old_row))\<close>, with the changed
  column set as accumulator. Reading \<open>new_row[i]\<close> past the end raises IndexError.\<close>

fun check_cols :: "pyval list \<Rightarrow> pyval list \<Rightarrow> nat list \<Rightarrow> nat set \<Rightarrow> error + nat set" where
  "check_cols old_row new_row [] diff_cols = Inr diff_cols"
| "check_cols old_row new_row (i # is) diff_cols =
     (case normalize_val (old_row ! i) of Inl e \<Rightarrow> Inl e | Inr a \<Rightarrow>
      if length new_row \<le> i then Inl IndexError else
      case normalize_val (new_row ! i) of Inl e \<Rightarrow> Inl e | Inr b \<Rightarrow>
      check_cols old_row new_row is (if py_ne a b then insert i diff_cols else diff_cols))"

definition check_row_diff :: "pyval list \<Rightarrow> pyval list \<Rightarrow> error + (bool \<times> nat set)" where
  "check_row_diff old_row new_row =
     (case check_cols old_row new_row [0 ..< length old_row] {} of
        Inl e \<Rightarrow> Inl e
      | Inr diff_cols \<Rightarrow> Inr (diff_cols \<noteq> {}, diff_cols))"

type_synonym row_tuple = "pyval list \<times> pyval list \<times> bool \<times> nat set"

text \<open>The rows one signal name of a message present in both versions contributes,
  from \<open>old_sig = old_msg.signals.get(sig_name)\<close> and \<open>new_sig\<close> likewise.\<close>

fun compare_sig_pair :: "Message \<Rightarrow> Message \<Rightarrow> Signal option \<Rightarrow> Signal option \<Rightarrow> error + row_tuple list" where
  "compare_sig_pair old_msg new_msg (Some old_sig) (Some new_sig) =
     (case build_signal_row old_msg old_sig of Inl e \<Rightarrow> Inl e | Inr old_row \<Rightarrow>
      case build_signal_row new_msg new_sig of Inl e \<Rightarrow> Inl e | Inr new_row \<Rightarrow>
      case check_row_diff old_row new_row of Inl e \<Rightarrow> Inl e | Inr (has_diff, diff_cols) \<Rightarrow>
      Inr [(old_row, new_row, has_diff, diff_cols)])"
| "compare_sig_pair old_msg new_msg (Some old_sig) None =
     (case build_signal_row old_msg old_sig of Inl e \<Rightarrow> Inl e | Inr old_row \<Rightarrow>
      case check_row_diff old_row (build_empty_msg_row new_msg) of Inl e \<Rightarrow> Inl e
      | Inr (has_diff, diff_cols) \<Rightarrow>
      Inr [(old_row, build_empty_msg_row new_msg, has_diff, diff_cols)])"
| "compare_sig_pair old_msg new_msg None (Some new_sig) =
     (case build_signal_row new_msg new_sig of Inl e \<Rightarrow> Inl e | Inr new_row \<Rightarrow>
      case check_row_diff (build_empty_msg_row old_msg) new_row of Inl e \<Rightarrow> Inl e
      | Inr (has_diff, diff_cols) \<Rightarrow>
      Inr [(build_empty_msg_row old_msg, new_row, has_diff, diff_cols)])"
| "compare_sig_pair old_msg new_msg None None = Inr []"

definition compare_sig :: "Message \<Rightarrow> Message \<Rightarrow> string \<Rightarrow> error + row_tuple list" where
  "compare_sig old_msg new_msg nm =
     compare_sig_pair old_msg new_msg (od_get (signals old_msg) nm) (od_get (signals new_msg) nm)"

text \<open>A loop whose body appends rows or raises.\<close>

fun rows_loop :: "('a \<Rightarrow> error + row_tuple list) \<Rightarrow> 'a list \<Rightarrow> row_tuple list \<Rightarrow> error + row_tuple list" where
  "rows_loop body [] rows = Inr rows"
| "rows_loop body (x # xs) rows =
     (case body x of Inl e \<Rightarrow> Inl e | Inr rs \<Rightarrow> rows_loop body xs (rows @ rs))"

definition all_changed :: "nat set" where
  "all_changed = {0 ..< NUM_COLS_PER_SIDE}"

text \<open>The body of the loop over \<open>all_msg_ids\<close> in \<open>compare_dbc_files\<close>: the rows
  appended for one message id, from \<open>old_msg = old_db.messages.get(msg_id)\<close> and
  \<open>new_msg\<close> likewise.\<close>

fun compare_pair :: "Message option \<Rightarrow> Message option \<Rightarrow> error + row_tuple list" where
  "compare_pair (Some old_msg) (Some new_msg) =
     (if fromkeys (od_keys (signals old_msg) @ od_keys (signals new_msg)) = [] then
        (case check_row_diff (build_empty_msg_row old_msg) (build_empty_msg_row new_msg) of
           Inl e \<Rightarrow> Inl e
         | Inr (has_diff, diff_cols) \<Rightarrow>
             Inr [(build_empty_msg_row old_msg, build_empty_msg_row new_msg, has_diff, diff_cols)])
      else rows_loop (compare_sig old_msg new_msg)
             (fromkeys (od_keys (signals old_msg) @ od_keys (signals new_msg))) [])"
| "compare_pair (Some old_msg) None =
     (if signals old_msg \<noteq> [] then
        rows_loop (\<lambda>sg. case build_signal_row old_msg sg of Inl e \<Rightarrow> Inl e
           | Inr old_row \<Rightarrow> Inr [(old_row, build_empty_row, True, all_changed)])
          (od_values (signals old_msg)) []
      else Inr [(build_empty_msg_row old_msg, build_empty_row, True, all_changed)])"
| "compare_pair None (Some new_msg) =
     (if signals new_msg \<noteq> [] then
        rows_loop (\<lambda>sg. case build_signal_row new_msg sg of Inl e \<Rightarrow> Inl e
           | Inr new_row \<Rightarrow> Inr [(build_empty_row, new_row, True, all_changed)])
          (od_values (signals new_msg)) []
      else Inr [(build_empty_row, build_empty_msg_row new_msg, True, all_changed)])"
| "compare_pair None None = Inr []"

definition compare_msg :: "DBCDatabase \<Rightarrow> DBCDatabase \<Rightarrow> nat \<Rightarrow> error + row_tuple list" where
  "compare_msg old_db new_db mid =
     compare_pair (od_get (messages old_db) mid) (od_get (messages new_db) mid)"

text \<open>\<open>sorted(set(list(old_db.messages.keys()) + list(new_db.messages.keys())))\<close>.\<close>

definition all_msg_ids :: "DBCDatabase \<Rightarrow> DBCDatabase \<Rightarrow> nat list" where
  "all_msg_ids old_db new_db = sort (remdups (od_keys (messages old_db) @ od_keys (messages new_db)))"

definition compare_dbc_files :: "DBCDatabase \<Rightarrow> DBCDatabase \<Rightarrow> error + row_tuple list" where
  "compare_dbc_files old_db new_db =
     rows_loop (compare_msg old_db new_db) (all_msg_ids old_db new_db) []"

section \<open>Categorized changes\<close>

text \<open>\<open>get_msg_rx_ecus\<close>: the set of receiver names over all signals, without empty
  names and the placeholder, sorted and joined.\<close>

definition get_msg_rx_ecus :: "Message \<Rightarrow> string" where
  "get_msg_rx_ecus msg =
     py_join '', '' (sort (remdups
       (filter (\<lambda>r. r \<noteq> [] \<and> r \<noteq> ''Vector__XXX'')
          (concat (map receivers (od_values (signals msg)))))))"

definition get_msg_signal_list :: "Message \<Rightarrow> string" where
  "get_msg_signal_list msg = py_join [CHR 0x0A] (map sg_display_name (od_values (signals msg)))"

definition build_msg_summary_row :: "Message \<Rightarrow> pyval list" where
  "build_msg_summary_row msg =
     [ PStr (hex_id (msg_id msg)),
       PStr (msg_display_name msg),
       PInt (int (dlc msg)),
       PStr (get_msg_signal_list msg),
       PStr (enum_lookup MSG_SEND_TYPE_ENUM (msg_send_type msg) ''Cyclic''),
       PInt (cycle_time msg),
       PStr (transmitter msg),
       PStr (get_msg_rx_ecus msg) ]"

text \<open>\<open>build_sig_summary_row\<close>: \<open>format_number\<close> runs on minimum, maximum and factor,
  in that order.\<close>

definition build_sig_summary_row :: "Message \<Rightarrow> Signal \<Rightarrow> error + pyval list" where
  "build_sig_summary_row msg sg =
     (case format_number (PFloat (minimum sg)) of Inl e \<Rightarrow> Inl e | Inr mn \<Rightarrow>
      case format_number (PFloat (maximum sg)) of Inl e \<Rightarrow> Inl e | Inr mx \<Rightarrow>
      case format_number (PFloat (factor sg)) of Inl e \<Rightarrow> Inl e | Inr sc \<Rightarrow>
      Inr [ PStr (hex_id (msg_id msg)),
            PStr (msg_display_name msg),
            PStr (sg_display_name sg),
            PInt (int (natural_start_bit sg)),
            PInt (int (sg_length sg)),
            PInt (start_value sg),
            mn, mx,
            PStr (sg_unit sg),
            sc,
            PStr (value_desc sg),
            PStr (py_join '', '' (receivers sg)) ])"

text \<open>The list comprehension
  \<open>[i for i in range(len(old_row)) if normalize_val(old_row[i]) != normalize_val(new_row[i])]\<close>.\<close>

fun diff_indices :: "pyval list \<Rightarrow> pyval list \<Rightarrow> nat list \<Rightarrow> error + nat list" where
  "diff_indices old_row new_row [] = Inr []"
| "diff_indices old_row new_row (i # is) =
     (case normalize_val (old_row ! i) of Inl e \<Rightarrow> Inl e | Inr a \<Rightarrow>
      if length new_row \<le> i then Inl IndexError else
      case normalize_val (new_row ! i) of Inl e \<Rightarrow> Inl e | Inr b \<Rightarrow>
      case diff_indices old_row new_row is of Inl e \<Rightarrow> Inl e | Inr ds \<Rightarrow>
      Inr (if py_ne a b then i # ds else ds))"

definition row_diffs :: "pyval list \<Rightarrow> pyval list \<Rightarrow> error + nat list" where
  "row_diffs old_row new_row = diff_indices old_row new_row [0 ..< length old_row]"

record Categories =
  new_messages :: "Message list"
  removed_messages :: "Message list"
  modified_messages :: "(Message \<times> Message \<times> nat list) list"
  new_signals :: "(Message \<times> Signal) list"
  removed_signals :: "(Message \<times> Signal) list"
  modified_signals :: "(Message \<times> Message \<times> Signal \<times> Signal \<times> nat list) list"

definition empty_categories :: Categories where
  "empty_categories = \<lparr> new_messages = [], removed_messages = [], modified_messages = [],
     new_signals = [], removed_signals = [], modified_signals = [] \<rparr>"

text \<open>The body of the loop over \<open>all_sigs\<close> for a message present in both versions.\<close>

fun categorize_sig_pair :: "Message \<Rightarrow> Message \<Rightarrow> Signal option \<Rightarrow> Signal option \<Rightarrow> Categories \<Rightarrow> error + Categories" where
  "categorize_sig_pair old_msg new_msg (Some old_sig) None cats =
     Inr (cats\<lparr>removed_signals := removed_signals cats @ [(old_msg, old_sig)]\<rparr>)"
| "categorize_sig_pair old_msg new_msg None (Some new_sig) cats =
     Inr (cats\<lparr>new_signals := new_signals cats @ [(new_msg, new_sig)]\<rparr>)"
| "categorize_sig_pair old_msg new_msg (Some old_sig) (Some new_sig) cats =
     (case build_sig_summary_row old_msg old_sig of Inl e \<Rightarrow> Inl e | Inr old_sr \<Rightarrow>
      case build_sig_summary_row new_msg new_sig of Inl e \<Rightarrow> Inl e | Inr new_sr \<Rightarrow>
      case row_diffs (drop 3 old_sr) (drop 3 new_sr) of Inl e \<Rightarrow> Inl e | Inr sig_diffs \<Rightarrow>
      Inr (if sig_diffs \<noteq> [] then
             cats\<lparr>modified_signals := modified_signals cats @
                    [(old_msg, new_msg, old_sig, new_sig, sig_diffs)]\<rparr>
           else cats))"
| "categorize_sig_pair old_msg new_msg None None cats = Inr cats"

definition categorize_sig :: "Message \<Rightarrow> Message \<Rightarrow> string \<Rightarrow> Categories \<Rightarrow> error + Categories" where
  "categorize_sig old_msg new_msg nm cats =
     categorize_sig_pair old_msg new_msg (od_get (signals old_msg) nm) (od_get (signals new_msg) nm) cats"

text \<open>A loop whose body updates the six lists or raises.\<close>

fun cats_loop :: "('a \<Rightarrow> Categories \<Rightarrow> error + Categories) \<Rightarrow> 'a list \<Rightarrow> Categories \<Rightarrow> error + Categories" where
  "cats_loop body [] cats = Inr cats"
| "cats_loop body (x # xs) cats =
     (case body x cats of Inl e \<Rightarrow> Inl e | Inr cats' \<Rightarrow> cats_loop body xs cats')"

text \<open>The body of the loop over \<open>all_msg_ids\<close> in \<open>categorize_changes\<close>. An id taken
  from the union of the key sets is present on one side at least; with both absent the
  \<open>else\<close> branch would read an attribute of \<open>None\<close>.\<close>

fun categorize_pair :: "Message option \<Rightarrow> Message option \<Rightarrow> Categories \<Rightarrow> error + Categories" where
  "categorize_pair (Some old_msg) None cats =
     Inr (cats\<lparr>removed_messages := removed_messages cats @ [old_msg],
               removed_signals := removed_signals cats @
                  map (\<lambda>sg. (old_msg, sg)) (od_values (signals old_msg))\<rparr>)"
| "categorize_pair None (Some new_msg) cats =
     Inr (cats\<lparr>new_messages := new_messages cats @ [new_msg],
               new_signals := new_signals cats @
                  map (\<lambda>sg. (new_msg, sg)) (od_values (signals new_msg))\<rparr>)"
| "categorize_pair (Some old_msg) (Some new_msg) cats =
     (case row_diffs (build_msg_summary_row old_msg) (build_msg_summary_row new_msg) of
        Inl e \<Rightarrow> Inl e
      | Inr msg_diffs \<Rightarrow>
          cats_loop (categorize_sig old_msg new_msg)
            (fromkeys (od_keys (signals old_msg) @ od_keys (signals new_msg)))
            (if msg_diffs \<noteq> [] then
               cats\<lparr>modified_messages := modified_messages cats @
                      [(old_msg, new_msg, msg_diffs)]\<rparr>
             else cats))"
| "categorize_pair None None cats = Inl AttributeError"

definition categorize_msg :: "DBCDatabase \<Rightarrow> DBCDatabase \<Rightarrow> nat \<Rightarrow> Categories \<Rightarrow> error + Categories" where
  "categorize_msg old_db new_db mid cats =
     categorize_pair (od_get (messages old_db) mid) (od_get (messages new_db) mid) cats"

definition categorize_changes :: "DBCDatabase \<Rightarrow> DBCDatabase \<Rightarrow> error + Categories" where
  "categorize_changes old_db new_db =
     cats_loop (categorize_msg old_db new_db) (all_msg_ids old_db new_db) empty_categories"

section \<open>Strings and numbers read from the text\<close>

text \<open>A string is a list of characters with code points below 256. The whitespace of
  \<open>str.strip()\<close> and \<open>str.split()\<close> among them:\<close>

definition is_space :: "char \<Rightarrow> bool" where
  "is_space c = ((of_char c :: nat) \<in> {9, 10, 11, 12, 13, 28, 29, 30, 31, 32, 133, 160})"

definition py_strip :: "string \<Rightarrow> string" where
  "py_strip s = rev (dropWhile is_space (rev (dropWhile is_space s)))"

text \<open>\<open>s.split(',')\<close>.\<close>

fun split_on :: "char \<Rightarrow> string \<Rightarrow> string list" where
  "split_on c [] = [[]]"
| "split_on c (x # xs) =
     (if x = c then [] # split_on c xs
      else (case split_on c xs of [] \<Rightarrow> [[x]] | w # ws \<Rightarrow> (x # w) # ws))"

text \<open>\<open>s.split()\<close>: the maximal runs of non-whitespace characters.\<close>

fun split_ws_acc :: "string \<Rightarrow> string \<Rightarrow> string list" where
  "split_ws_acc cur [] = (if cur = [] then [] else [cur])"
| "split_ws_acc cur (c # cs) =
     (if is_space c then (if cur = [] then split_ws_acc [] cs else cur # split_ws_acc [] cs)
      else split_ws_acc (cur @ [c]) cs)"

definition split_ws :: "string \<Rightarrow> string list" where
  "split_ws s = split_ws_acc [] s"

text \<open>
  \<open>float()\<close> strips less than \<open>str.strip()\<close>. It first replaces every whitespace
  character from code point 127 on by a space, and then removes, at both ends, the six
  characters that C calls space: the separators U+001C to U+001F are whitespace for
  \<open>str.strip()\<close> but stay in the text given to \<open>float()\<close>, which then rejects it.
\<close>

definition is_float_space :: "char \<Rightarrow> bool" where
  "is_float_space c = ((of_char c :: nat) \<in> {9, 10, 11, 12, 13, 32, 133, 160})"

definition float_strip :: "string \<Rightarrow> string" where
  "float_strip s = rev (dropWhile is_float_space (rev (dropWhile is_float_space s)))"

text \<open>
  \<open>float(s)\<close> accepts, after this stripping, an optional sign followed by
  \<open>inf\<close>, \<open>infinity\<close> or \<open>nan\<close> in any case, or by a decimal number: digits with an
  optional fraction (one digit at least on either side of the point), and an optional
  exponent. Single underscores may separate digits. Anything else raises ValueError,
  here \<open>None\<close>. The value returned for a decimal number is its exact value: rounding to
  the nearest double, and overflow to an infinity, are not modelled. (Beyond code point
  255 \<open>float()\<close> also reads the decimal digits and the spaces of other scripts; the
  strings here have none.)
\<close>

definition is_digit :: "char \<Rightarrow> bool" where
  "is_digit c = (48 \<le> (of_char c :: nat) \<and> (of_char c :: nat) \<le> 57)"

definition digit_val :: "char \<Rightarrow> nat" where
  "digit_val c = of_char c - 48"

fun digitpart :: "string \<Rightarrow> nat list \<times> string" where
  "digitpart [] = ([], [])"
| "digitpart [c] = (if is_digit c then ([digit_val c], []) else ([], [c]))"
| "digitpart (c # u # cs) =
     (if \<not> is_digit c then ([], c # u # cs)
      else if u = CHR ''_'' \<and> cs \<noteq> [] \<and> is_digit (hd cs)
        then (case digitpart cs of (ds, r) \<Rightarrow> (digit_val c # ds, r))
      else (case digitpart (u # cs) of (ds, r) \<Rightarrow> (digit_val c # ds, r)))"

definition nat_of_digits :: "nat list \<Rightarrow> nat" where
  "nat_of_digits ds = foldl (\<lambda>n d. 10 * n + d) 0 ds"

definition lower :: "char \<Rightarrow> char" where
  "lower c = (if 65 \<le> (of_char c :: nat) \<and> (of_char c :: nat) \<le> 90 then char_of (of_char c + 32 :: nat) else c)"

definition scale10 :: "nat \<Rightarrow> int \<Rightarrow> rat" where
  "scale10 m k = (if 0 \<le> k then of_nat m * 10 ^ nat k else of_nat m / 10 ^ nat (- k))"

text \<open>The exponent part: \<open>None\<close> when the rest of the text is not an exponent.\<close>

definition exponent :: "string \<Rightarrow> int option" where
  "exponent r =
     (case r of
        [] \<Rightarrow> Some 0
      | e # r1 \<Rightarrow>
          if e = CHR ''e'' \<or> e = CHR ''E'' then
            (let (neg, r2) = (case r1 of [] \<Rightarrow> (False, [])
                              | c # cs \<Rightarrow> if c = CHR ''-'' then (True, cs)
                                          else if c = CHR ''+'' then (False, cs) else (False, r1))
             in case digitpart r2 of (ds, r3) \<Rightarrow>
                  if ds = [] \<or> r3 \<noteq> [] then None
                  else Some (if neg then - int (nat_of_digits ds) else int (nat_of_digits ds)))
          else None)"

definition float_number :: "string \<Rightarrow> rat option" where
  "float_number body =
     (case digitpart body of (ip, r1) \<Rightarrow>
      case (if r1 \<noteq> [] \<and> hd r1 = CHR ''.'' then digitpart (tl r1) else ([], r1)) of (fp, r2) \<Rightarrow>
      if ip = [] \<and> fp = [] then None
      else (case exponent r2 of
              None \<Rightarrow> None
            | Some ex \<Rightarrow> Some (scale10 (nat_of_digits (ip @ fp)) (ex - int (length fp)))))"

definition py_float :: "string \<Rightarrow> pyfloat option" where
  "py_float s =
     (case float_strip s of
        [] \<Rightarrow> None
      | c # cs \<Rightarrow>
          (let (neg, body) = (if c = CHR ''-'' then (True, cs)
                              else if c = CHR ''+'' then (False, cs) else (False, c # cs))
           in if map lower body = ''inf'' \<or> map lower body = ''infinity''
                then Some (if neg then NInf else PInf)
              else if map lower body = ''nan'' then Some NaN
              else (case float_number body of
                      None \<Rightarrow> None
                    | Some q \<Rightarrow> Some (Finite (if neg then - q else q)))))"

section \<open>The parser\<close>

text \<open>
  \<open>parse_dbc\<close> reads the text through regular-expression sweeps only
  (\<open>pattern.finditer(content)\<close>), each sweep picking the records of one shape in
  document order. The regular-expression engine is Python's, not this program's: a
  document is represented by the sequence of its records, each carrying the groups its
  pattern captures. A group matched by \<open>\d+\<close> is a natural number, one matched by
  \<open>-?\d+\<close> an integer: \<open>int()\<close> of such a group does not raise as long as the group
  is no longer than the interpreter's limit on the digits of an integer (4300 by default
  from Python 3.11 on), and the documents considered here keep to it. The groups given
  to \<open>float()\<close> are matched by \<open>[^,]+\<close> and its like, and stay text. Text that matches no
  pattern is \<open>OTHER\<close>. Every stretch of text is one record: a document in which a match
  of one pattern lies inside a match of another (a message line inside a comment
  that runs over several lines) is not represented.
\<close>

record SigMatch =
  g_name :: string
  g_start_bit :: nat
  g_length :: nat
  g_byte_order :: nat
  g_value_type :: string
  g_factor :: string
  g_offset :: string
  g_minimum :: string
  g_maximum :: string
  g_unit :: string
  g_receivers :: string

datatype drec =
    BU string
  | BO nat string nat string
  | SG SigMatch
  | BA_BO_INT string nat int
  | BA_BO_STR string nat string
  | BA_SG_INT string nat string int
  | BA_SG_STR string nat string string
  | VAL nat string "(string \<times> string) list"
  | CM_SG nat string string
  | CM_BO nat string
  | BA_GLOBAL string string
  | OTHER string

fun is_BO :: "drec \<Rightarrow> bool" where
  "is_BO (BO i n d t) = True"
| "is_BO r = False"

text \<open>One signal line: the four \<open>float()\<close> calls run in the order factor, offset,
  minimum, maximum, and none of them is guarded.\<close>

definition parse_signal :: "SigMatch \<Rightarrow> error + Signal" where
  "parse_signal sm =
     (case py_float (g_factor sm) of None \<Rightarrow> Inl ValueError | Some fa \<Rightarrow>
      case py_float (g_offset sm) of None \<Rightarrow> Inl ValueError | Some off \<Rightarrow>
      case py_float (g_minimum sm) of None \<Rightarrow> Inl ValueError | Some mn \<Rightarrow>
      case py_float (g_maximum sm) of None \<Rightarrow> Inl ValueError | Some mx \<Rightarrow>
      Inr (new_Signal\<lparr> sg_name := g_name sm, start_bit := g_start_bit sm,
             sg_length := g_length sm, byte_order := g_byte_order sm,
             value_type := g_value_type sm, factor := fa, offset := off,
             minimum := mn, maximum := mx, sg_unit := g_unit sm,
             receivers := filter (\<lambda>r. r \<noteq> [])
               (map py_strip (split_on CHR '','' (py_strip (g_receivers sm)))) \<rparr>))"

text \<open>The signal lines of one message block, stored under their names.\<close>

fun parse_block :: "drec list \<Rightarrow> (string \<times> Signal) list \<Rightarrow> error + (string \<times> Signal) list" where
  "parse_block [] sigs = Inr sigs"
| "parse_block (SG sm # rest) sigs =
     (case parse_signal sm of
        Inl e \<Rightarrow> Inl e
      | Inr sg \<Rightarrow> parse_block rest (od_set (sg_name sg) sg sigs))"
| "parse_block (r # rest) sigs = parse_block rest sigs"

text \<open>The message declarations; the block of a message runs from its declaration to
  the next declaration or the end of the document.\<close>

fun parse_messages :: "drec list \<Rightarrow> (nat \<times> Message) list \<Rightarrow> error + (nat \<times> Message) list" where
  "parse_messages [] ms = Inr ms"
| "parse_messages (BO i n d t # rest) ms =
     (case parse_block (takeWhile (\<lambda>r. \<not> is_BO r) rest) [] of
        Inl e \<Rightarrow> Inl e
      | Inr sigs \<Rightarrow>
          parse_messages rest
            (od_set i (new_Message\<lparr> msg_id := i, msg_name := n, dlc := d, transmitter := t,
                                    signals := sigs \<rparr>) ms))"
| "parse_messages (r # rest) ms = parse_messages rest ms"

text \<open>The matches of each attribute, value-table and comment pattern
  (\<open>pattern.finditer(content)\<close>), in document order, as key and value: a selector says
  what one record gives to a pattern, and the matches are the selected records.\<close>

fun sel_msg_int :: "string \<Rightarrow> drec \<Rightarrow> (nat \<times> int) option" where
  "sel_msg_int a (BA_BO_INT n i v) = (if n = a then Some (i, v) else None)"
| "sel_msg_int a r = None"

fun sel_msg_str :: "string \<Rightarrow> drec \<Rightarrow> (nat \<times> string) option" where
  "sel_msg_str a (BA_BO_STR n i v) = (if n = a then Some (i, v) else None)"
| "sel_msg_str a r = None"

fun sel_sig_int :: "string \<Rightarrow> drec \<Rightarrow> ((nat \<times> string) \<times> int) option" where
  "sel_sig_int a (BA_SG_INT n i nm v) = (if n = a then Some ((i, nm), v) else None)"
| "sel_sig_int a r = None"

fun sel_sig_str :: "string \<Rightarrow> drec \<Rightarrow> ((nat \<times> string) \<times> string) option" where
  "sel_sig_str a (BA_SG_STR n i nm v) = (if n = a then Some ((i, nm), v) else None)"
| "sel_sig_str a r = None"

text \<open>A value table becomes one string: \<open>", ".join(f"{num}: {desc}" for num, desc in pairs)\<close>.\<close>

definition val_desc_str :: "(string \<times> string) list \<Rightarrow> string" where
  "val_desc_str pairs = py_join '', '' (map (\<lambda>(num, d). num @ '': '' @ d) pairs)"

fun sel_val :: "drec \<Rightarrow> ((nat \<times> string) \<times> string) option" where
  "sel_val (VAL i nm pairs) = Some ((i, nm), val_desc_str pairs)"
| "sel_val r = None"

fun sel_cm_sg :: "drec \<Rightarrow> ((nat \<times> string) \<times> string) option" where
  "sel_cm_sg (CM_SG i nm c) = Some ((i, nm), c)"
| "sel_cm_sg r = None"

fun sel_cm_bo :: "drec \<Rightarrow> (nat \<times> string) option" where
  "sel_cm_bo (CM_BO i c) = Some (i, c)"
| "sel_cm_bo r = None"

definition msg_int_matches :: "string \<Rightarrow> drec list \<Rightarrow> (nat \<times> int) list" where
  "msg_int_matches a content = List.map_filter (sel_msg_int a) content"

definition msg_str_matches :: "string \<Rightarrow> drec list \<Rightarrow> (nat \<times> string) list" where
  "msg_str_matches a content = List.map_filter (sel_msg_str a) content"

definition sig_int_matches :: "string \<Rightarrow> drec list \<Rightarrow> ((nat \<times> string) \<times> int) list" where
  "sig_int_matches a content = List.map_filter (sel_sig_int a) content"

definition sig_str_matches :: "string \<Rightarrow> drec list \<Rightarrow> ((nat \<times> string) \<times> string) list" where
  "sig_str_matches a content = List.map_filter (sel_sig_str a) content"

definition val_matches :: "drec list \<Rightarrow> ((nat \<times> string) \<times> string) list" where
  "val_matches content = List.map_filter sel_val content"

definition cm_sg_matches :: "drec list \<Rightarrow> ((nat \<times> string) \<times> string) list" where
  "cm_sg_matches content = List.map_filter sel_cm_sg content"

definition cm_bo_matches :: "drec list \<Rightarrow> (nat \<times> string) list" where
  "cm_bo_matches content = List.map_filter sel_cm_bo content"

text \<open>The \<open>results\<close> dictionary of \<open>parse_msg_int_attr\<close>, \<open>parse_sig_int_attr\<close> and
  \<open>parse_sig_str_attr\<close>: every match is stored under its key.\<close>

fun dict_of :: "('k \<times> 'v) list \<Rightarrow> ('k \<times> 'v) list \<Rightarrow> ('k \<times> 'v) list" where
  "dict_of [] results = results"
| "dict_of ((k, v) # ms) results = dict_of ms (od_set k v results)"

definition parse_msg_int_attr :: "string \<Rightarrow> drec list \<Rightarrow> (nat \<times> int) list" where
  "parse_msg_int_attr a content = dict_of (msg_int_matches a content) []"

definition parse_sig_int_attr :: "string \<Rightarrow> drec list \<Rightarrow> ((nat \<times> string) \<times> int) list" where
  "parse_sig_int_attr a content = dict_of (sig_int_matches a content) []"

definition parse_sig_str_attr :: "string \<Rightarrow> drec list \<Rightarrow> ((nat \<times> string) \<times> string) list" where
  "parse_sig_str_attr a content = dict_of (sig_str_matches a content) []"

text \<open>The loops that overlay values on the entities: a key that names no message, or
  no signal of its message, is passed over.\<close>

fun apply_msg_attr :: "('v \<Rightarrow> Message \<Rightarrow> Message) \<Rightarrow> (nat \<times> 'v) list \<Rightarrow> (nat \<times> Message) list \<Rightarrow> (nat \<times> Message) list" where
  "apply_msg_attr upd [] ms = ms"
| "apply_msg_attr upd ((i, v) # rest) ms =
     apply_msg_attr upd rest
       (case od_get ms i of None \<Rightarrow> ms | Some m \<Rightarrow> od_set i (upd v m) ms)"

fun apply_sig_attr :: "('v \<Rightarrow> Signal \<Rightarrow> Signal) \<Rightarrow> ((nat \<times> string) \<times> 'v) list \<Rightarrow> (nat \<times> Message) list \<Rightarrow> (nat \<times> Message) list" where
  "apply_sig_attr upd [] ms = ms"
| "apply_sig_attr upd (((i, nm), v) # rest) ms =
     apply_sig_attr upd rest
       (case od_get ms i of
          None \<Rightarrow> ms
        | Some m \<Rightarrow>
            (case od_get (signals m) nm of
               None \<Rightarrow> ms
             | Some sg \<Rightarrow> od_set i (m\<lparr>signals := od_set nm (upd v sg) (signals m)\<rparr>) ms))"

definition apply_msg_attrs :: "drec list \<Rightarrow> (nat \<times> Message) list \<Rightarrow> (nat \<times> Message) list" where
  "apply_msg_attrs content =
     apply_msg_attr (\<lambda>v m. m\<lparr>msg_long_symbol := v\<rparr>) (msg_str_matches ''SystemMessageLongSymbol'' content)
     \<circ> apply_msg_attr (\<lambda>v m. m\<lparr>diag_state := v\<rparr>) (parse_msg_int_attr ''DiagState'' content)
     \<circ> apply_msg_attr (\<lambda>v m. m\<lparr>diag_response := v\<rparr>) (parse_msg_int_attr ''DiagResponse'' content)
     \<circ> apply_msg_attr (\<lambda>v m. m\<lparr>diag_request := v\<rparr>) (parse_msg_int_attr ''DiagRequest'' content)
     \<circ> apply_msg_attr (\<lambda>v m. m\<lparr>canfd_brs := v\<rparr>) (parse_msg_int_attr ''CANFD_BRS'' content)
     \<circ> apply_msg_attr (\<lambda>v m. m\<lparr>vframe_format := v\<rparr>) (parse_msg_int_attr ''VFrameFormat'' content)
     \<circ> apply_msg_attr (\<lambda>v m. m\<lparr>nm_asr_message := v\<rparr>) (parse_msg_int_attr ''NmAsrMessage'' content)
     \<circ> apply_msg_attr (\<lambda>v m. m\<lparr>nm_message := v\<rparr>) (parse_msg_int_attr ''NmMessage'' content)
     \<circ> apply_msg_attr (\<lambda>v m. m\<lparr>il_support := v\<rparr>) (parse_msg_int_attr ''GenMsgILSupport'' content)
     \<circ> apply_msg_attr (\<lambda>v m. m\<lparr>start_delay_time := v\<rparr>) (parse_msg_int_attr ''GenMsgStartDelayTime'' content)
     \<circ> apply_msg_attr (\<lambda>v m. m\<lparr>delay_time := v\<rparr>) (parse_msg_int_attr ''GenMsgDelayTime'' content)
     \<circ> apply_msg_attr (\<lambda>v m. m\<lparr>nr_of_repetition := v\<rparr>) (parse_msg_int_attr ''GenMsgNrOfRepetition'' content)
     \<circ> apply_msg_attr (\<lambda>v m. m\<lparr>msg_send_type := v\<rparr>) (parse_msg_int_attr ''GenMsgSendType'' content)
     \<circ> apply_msg_attr (\<lambda>v m. m\<lparr>cycle_time_active := v\<rparr>) (parse_msg_int_attr ''GenMsgCycleTimeActive'' content)
     \<circ> apply_msg_attr (\<lambda>v m. m\<lparr>cycle_time_fast := v\<rparr>) (parse_msg_int_attr ''GenMsgCycleTimeFast'' content)
     \<circ> apply_msg_attr (\<lambda>v m. m\<lparr>cycle_time := v\<rparr>) (parse_msg_int_attr ''GenMsgCycleTime'' content)"

definition apply_sig_attrs :: "drec list \<Rightarrow> (nat \<times> Message) list \<Rightarrow> (nat \<times> Message) list" where
  "apply_sig_attrs content =
     apply_sig_attr (\<lambda>v sg. sg\<lparr>sg_long_symbol := v\<rparr>) (parse_sig_str_attr ''SystemSignalLongSymbol'' content)
     \<circ> apply_sig_attr (\<lambda>v sg. sg\<lparr>invalid_value := v\<rparr>) (parse_sig_str_attr ''InvalidValue'' content)
     \<circ> apply_sig_attr (\<lambda>v sg. sg\<lparr>timeout_time := v\<rparr>) (parse_sig_int_attr ''GenSigTimeoutTime_ALL'' content)
     \<circ> apply_sig_attr (\<lambda>v sg. sg\<lparr>sg_send_type := v\<rparr>) (parse_sig_int_attr ''GenSigSendType'' content)
     \<circ> apply_sig_attr (\<lambda>v sg. sg\<lparr>inactive_value := v\<rparr>) (parse_sig_int_attr ''GenSigInactiveValue'' content)
     \<circ> apply_sig_attr (\<lambda>v sg. sg\<lparr>start_value := v\<rparr>) (parse_sig_int_attr ''GenSigStartValue'' content)"

definition apply_val_cm :: "drec list \<Rightarrow> (nat \<times> Message) list \<Rightarrow> (nat \<times> Message) list" where
  "apply_val_cm content =
     apply_msg_attr (\<lambda>v m. m\<lparr>msg_comment := v\<rparr>) (cm_bo_matches content)
     \<circ> apply_sig_attr (\<lambda>v sg. sg\<lparr>sg_comment := v\<rparr>) (cm_sg_matches content)
     \<circ> apply_sig_attr (\<lambda>v sg. sg\<lparr>value_desc := v\<rparr>) (val_matches content)"

text \<open>\<open>re.search\<close>: the first match of a global attribute, and of the node list.\<close>

fun global_attr :: "string \<Rightarrow> drec list \<Rightarrow> string option" where
  "global_attr a [] = None"
| "global_attr a (BA_GLOBAL n v # rest) = (if n = a then Some v else global_attr a rest)"
| "global_attr a (r # rest) = global_attr a rest"

fun bu_match :: "drec list \<Rightarrow> string option" where
  "bu_match [] = None"
| "bu_match (BU s # rest) = Some s"
| "bu_match (r # rest) = bu_match rest"

definition parse_dbc :: "drec list \<Rightarrow> error + DBCDatabase" where
  "parse_dbc content =
     (case parse_messages content [] of
        Inl e \<Rightarrow> Inl e
      | Inr ms \<Rightarrow>
          Inr (new_DBCDatabase\<lparr>
                 nodes := (case bu_match content of None \<Rightarrow> [] | Some s \<Rightarrow> split_ws (py_strip s)),
                 messages := apply_val_cm content (apply_sig_attrs content (apply_msg_attrs content ms)),
                 bus_type := (case global_attr ''BusType'' content of None \<Rightarrow> [] | Some v \<Rightarrow> v),
                 db_name := (case global_attr ''DBName'' content of None \<Rightarrow> [] | Some v \<Rightarrow> v) \<rparr>))"

section \<open>Auxiliary notions\<close>

text \<open>A value that \<open>normalize_val\<close> returns unchanged: \<open>None\<close>, an \<open>int\<close>, a \<open>str\<close>,
  or a finite float that is not a whole number.\<close>

definition normal :: "pyval \<Rightarrow> bool" where
  "normal v = (normalize_val v = Inr v)"

fun finite_float :: "pyfloat \<Rightarrow> bool" where
  "finite_float (Finite q) = True"
| "finite_float f = False"

text \<open>The numeric fields of a signal that the report rows pass to \<open>format_number\<close>.\<close>

definition finite_sig :: "Signal \<Rightarrow> bool" where
  "finite_sig sg = (finite_float (factor sg) \<and> finite_float (offset sg)
     \<and> finite_float (minimum sg) \<and> finite_float (maximum sg))"


text \<open>A cell that is not a float: on such cells \<open>!=\<close> is plain inequality.\<close>

fun plain :: "pyval \<Rightarrow> bool" where
  "plain (PFloat f) = False"
| "plain v = True"


text \<open>Appending the six lists of one result to those of another.\<close>

definition cats_append :: "Categories \<Rightarrow> Categories \<Rightarrow> Categories" where
  "cats_append c d = \<lparr> new_messages = new_messages c @ new_messages d,
     removed_messages = removed_messages c @ removed_messages d,
     modified_messages = modified_messages c @ modified_messages d,
     new_signals = new_signals c @ new_signals d,
     removed_signals = removed_signals c @ removed_signals d,
     modified_signals = modified_signals c @ modified_signals d \<rparr>"


text \<open>The numeric fields of a signal that \<open>build_sig_summary_row\<close> passes to
  \<open>format_number\<close>.\<close>

definition summary_finite :: "Signal \<Rightarrow> bool" where
  "summary_finite sg = (finite_float (minimum sg) \<and> finite_float (maximum sg) \<and> finite_float (factor sg))"

text \<open>The entry a signal name contributes as present on one side only: \<open>present_only m a b\<close>
  is the signal \<open>b\<close> of message \<open>m\<close> when the other side has none.\<close>

fun present_only :: "Message \<Rightarrow> Signal option \<Rightarrow> Signal option \<Rightarrow> (Message \<times> Signal) list" where
  "present_only m None (Some sg) = [(m, sg)]"
| "present_only m a b = []"


text \<open>
  What the attribute sweeps amount to, entity by entity: each overlaid field holds the
  value of the last record of the document that assigns it to this entity, and keeps
  the value it had when there is none.
\<close>

definition last_val :: "('k \<times> 'v) list \<Rightarrow> 'k \<Rightarrow> 'v option" where
  "last_val items k = map_of (rev items) k"

fun last_or :: "'v \<Rightarrow> 'v option \<Rightarrow> 'v" where
  "last_or d None = d"
| "last_or d (Some v) = v"

definition msg_overlay :: "drec list \<Rightarrow> nat \<Rightarrow> Message \<Rightarrow> Message" where
  "msg_overlay content i m = m\<lparr>
     cycle_time := last_or (cycle_time m) (last_val (msg_int_matches ''GenMsgCycleTime'' content) i),
     cycle_time_fast := last_or (cycle_time_fast m) (last_val (msg_int_matches ''GenMsgCycleTimeFast'' content) i),
     cycle_time_active := last_or (cycle_time_active m) (last_val (msg_int_matches ''GenMsgCycleTimeActive'' content) i),
     msg_send_type := last_or (msg_send_type m) (last_val (msg_int_matches ''GenMsgSendType'' content) i),
     nr_of_repetition := last_or (nr_of_repetition m) (last_val (msg_int_matches ''GenMsgNrOfRepetition'' content) i),
     delay_time := last_or (delay_time m) (last_val (msg_int_matches ''GenMsgDelayTime'' content) i),
     start_delay_time := last_or (start_delay_time m) (last_val (msg_int_matches ''GenMsgStartDelayTime'' content) i),
     il_support := last_or (il_support m) (last_val (msg_int_matches ''GenMsgILSupport'' content) i),
     nm_message := last_or (nm_message m) (last_val (msg_int_matches ''NmMessage'' content) i),
     nm_asr_message := last_or (nm_asr_message m) (last_val (msg_int_matches ''NmAsrMessage'' content) i),
     vframe_format := last_or (vframe_format m) (last_val (msg_int_matches ''VFrameFormat'' content) i),
     canfd_brs := last_or (canfd_brs m) (last_val (msg_int_matches ''CANFD_BRS'' content) i),
     diag_request := last_or (diag_request m) (last_val (msg_int_matches ''DiagRequest'' content) i),
     diag_response := last_or (diag_response m) (last_val (msg_int_matches ''DiagResponse'' content) i),
     diag_state := last_or (diag_state m) (last_val (msg_int_matches ''DiagState'' content) i),
     msg_long_symbol := last_or (msg_long_symbol m) (last_val (msg_str_matches ''SystemMessageLongSymbol'' content) i),
     msg_comment := last_or (msg_comment m) (last_val (cm_bo_matches content) i) \<rparr>"

definition sig_overlay :: "drec list \<Rightarrow> nat \<Rightarrow> string \<Rightarrow> Signal \<Rightarrow> Signal" where
  "sig_overlay content i nm sg = sg\<lparr>
     start_value := last_or (start_value sg) (last_val (sig_int_matches ''GenSigStartValue'' content) (i, nm)),
     inactive_value := last_or (inactive_value sg) (last_val (sig_int_matches ''GenSigInactiveValue'' content) (i, nm)),
     sg_send_type := last_or (sg_send_type sg) (last_val (sig_int_matches ''GenSigSendType'' content) (i, nm)),
     timeout_time := last_or (timeout_time sg) (last_val (sig_int_matches ''GenSigTimeoutTime_ALL'' content) (i, nm)),
     invalid_value := last_or (invalid_value sg) (last_val (sig_str_matches ''InvalidValue'' content) (i, nm)),
     sg_long_symbol := last_or (sg_long_symbol sg) (last_val (sig_str_matches ''SystemSignalLongSymbol'' content) (i, nm)),
     value_desc := last_or (value_desc sg) (last_val (val_matches content) (i, nm)),
     sg_comment := last_or (sg_comment sg) (last_val (cm_sg_matches content) (i, nm)) \<rparr>"

definition overlay :: "drec list \<Rightarrow> (nat \<times> Message) list \<Rightarrow> (nat \<times> Message) list" where
  "overlay content ms =
     map (\<lambda>(i, m). (i, (msg_overlay content i m)\<lparr>signals :=
            map (\<lambda>(nm, sg). (nm, sig_overlay content i nm sg)) (signals m)\<rparr>)) ms"

text \<open>The invariant of the dictionaries: every message id once, every signal name once
  in its message.\<close>

definition wf_msgs :: "(nat \<times> Message) list \<Rightarrow> bool" where
  "wf_msgs ms = (distinct (od_keys ms) \<and> list_all (\<lambda>(i, m). distinct (od_keys (signals m))) ms)"

text \<open>Updating the value stored under a key, when the key is present.\<close>

definition set_at :: "'k \<Rightarrow> ('a \<Rightarrow> 'a) \<Rightarrow> ('k \<times> 'a) list \<Rightarrow> ('k \<times> 'a) list" where
  "set_at k f d = map (\<lambda>(i, x). (i, if i = k then f x else x)) d"

fun ov :: "('v \<Rightarrow> 'a \<Rightarrow> 'a) \<Rightarrow> 'v option \<Rightarrow> 'a \<Rightarrow> 'a" where
  "ov upd None x = x"
| "ov upd (Some v) x = upd v x"


text \<open>A dictionary of messages with every message and every signal passed through a
  function of its key.\<close>

definition over :: "(nat \<Rightarrow> Message \<Rightarrow> Message) \<Rightarrow> (nat \<Rightarrow> string \<Rightarrow> Signal \<Rightarrow> Signal)
    \<Rightarrow> (nat \<times> Message) list \<Rightarrow> (nat \<times> Message) list" where
  "over g h ms =
     map (\<lambda>(i, m). (i, (g i m)\<lparr>signals := map (\<lambda>(nm, sg). (nm, h i nm sg)) (signals m)\<rparr>)) ms"


text \<open>The entity an attribute, comment or value-table record names: a message id, or a
  message id and a signal name.\<close>

fun msg_key :: "drec \<Rightarrow> nat option" where
  "msg_key (BA_BO_INT n i v) = Some i"
| "msg_key (BA_BO_STR n i v) = Some i"
| "msg_key (CM_BO i c) = Some i"
| "msg_key r = None"

fun sig_key :: "drec \<Rightarrow> (nat \<times> string) option" where
  "sig_key (BA_SG_INT n i nm v) = Some (i, nm)"
| "sig_key (BA_SG_STR n i nm v) = Some (i, nm)"
| "sig_key (VAL i nm pairs) = Some (i, nm)"
| "sig_key (CM_SG i nm c) = Some (i, nm)"
| "sig_key r = None"

text \<open>Such a record is dangling when the tests \<open>msg_id in db.messages\<close> and
  \<open>sig_name in db.messages[msg_id].signals\<close> of the overlay loops fail for it.\<close>

definition dangling :: "(nat \<times> Message) list \<Rightarrow> drec \<Rightarrow> bool" where
  "dangling ms r =
     (case msg_key r of
        Some i \<Rightarrow> od_get ms i = None
      | None \<Rightarrow>
          (case sig_key r of
             None \<Rightarrow> False
           | Some (i, nm) \<Rightarrow>
               (case od_get ms i of None \<Rightarrow> True | Some m \<Rightarrow> od_get (signals m) nm = None)))"


text \<open>The declarations in document order: the matches of \<open>msg_pattern\<close>, each with its
  block, and the matches of \<open>sig_pattern\<close> in a block, each under the name it declares.\<close>

fun bo_matches :: "drec list \<Rightarrow> (nat \<times> (string \<times> nat \<times> string \<times> drec list)) list" where
  "bo_matches [] = []"
| "bo_matches (BO i n d t # rest) = (i, (n, d, t, takeWhile (\<lambda>r. \<not> is_BO r) rest)) # bo_matches rest"
| "bo_matches (r # rest) = bo_matches rest"

fun sel_sg :: "drec \<Rightarrow> (string \<times> SigMatch) option" where
  "sel_sg (SG sm) = Some (g_name sm, sm)"
| "sel_sg r = None"

definition sg_matches :: "drec list \<Rightarrow> (string \<times> SigMatch) list" where
  "sg_matches block = List.map_filter sel_sg block"


text \<open>The field a record assigns to its entity is absent from a document when no record
  of the document assigns it to that entity.\<close>

fun absent_field :: "drec \<Rightarrow> drec list \<Rightarrow> bool" where
  "absent_field (BA_BO_INT a i v) content = (last_val (msg_int_matches a content) i = None)"
| "absent_field (BA_BO_STR a i v) content = (last_val (msg_str_matches a content) i = None)"
| "absent_field (CM_BO i c) content = (last_val (cm_bo_matches content) i = None)"
| "absent_field (BA_SG_INT a i nm v) content = (last_val (sig_int_matches a content) (i, nm) = None)"
| "absent_field (BA_SG_STR a i nm v) content = (last_val (sig_str_matches a content) (i, nm) = None)"
| "absent_field (VAL i nm pairs) content = (last_val (val_matches content) (i, nm) = None)"
| "absent_field (CM_SG i nm c) content = (last_val (cm_sg_matches content) (i, nm) = None)"
| "absent_field r content = False"

text \<open>A record sets a default when it leaves a message, or a signal, as its constructor
  made it.\<close>

definition sets_default :: "drec \<Rightarrow> bool" where
  "sets_default r =
     (case msg_key r of
        Some i \<Rightarrow> msg_overlay [r] i new_Message = new_Message
      | None \<Rightarrow>
          (case sig_key r of
             None \<Rightarrow> False
           | Some (i, nm) \<Rightarrow> sig_overlay [r] i nm new_Signal = new_Signal))"

text \<open>The same whole number, as an \<open>int\<close> or as a \<open>float\<close>.\<close>

definition whole :: "int \<Rightarrow> pyval \<Rightarrow> bool" where
  "whole n v = (v = PInt n \<or> v = PFloat (Finite (of_int n)))"






section \<open>Example databases\<close>

text \<open>Two small databases used to instantiate the theorems below: an engine message
  \<open>0x100\<close> with two signals, and a status message \<open>0x200\<close> without signals.\<close>

definition sig_speed :: Signal where
  "sig_speed = new_Signal\<lparr> sg_name := ''Speed'', start_bit := 0, sg_length := 8, byte_order := 1,
     factor := Finite 5, maximum := Finite 255, sg_unit := ''km/h'', receivers := [''Dash''] \<rparr>"

definition sig_rpm :: Signal where
  "sig_rpm = new_Signal\<lparr> sg_name := ''Rpm'', start_bit := 8, sg_length := 16, byte_order := 1,
     maximum := Finite 8000, receivers := [''Dash'', ''Gateway''] \<rparr>"

definition msg_engine :: Message where
  "msg_engine = new_Message\<lparr> msg_id := 256, msg_name := ''Engine'', dlc := 8,
     transmitter := ''ECU'', signals := [(''Speed'', sig_speed), (''Rpm'', sig_rpm)] \<rparr>"

definition msg_status :: Message where
  "msg_status = new_Message\<lparr> msg_id := 512, msg_name := ''Status'', dlc := 2,
     transmitter := ''Gateway'' \<rparr>"

definition db_both :: DBCDatabase where
  "db_both = new_DBCDatabase\<lparr> messages := [(512, msg_status), (256, msg_engine)] \<rparr>"

definition db_both_reordered :: DBCDatabase where
  "db_both_reordered = new_DBCDatabase\<lparr> messages := [(256, msg_engine), (512, msg_status)] \<rparr>"

definition db_status_only :: DBCDatabase where
  "db_status_only = new_DBCDatabase\<lparr> messages := [(512, msg_status)] \<rparr>"








text \<open>A database as \<open>parse_dbc\<close> returns it for the two lines
  \<^verbatim>\<open>BO_ 256 Engine: 8 ECU\<close> and \<^verbatim>\<open> SG_ Speed : 0|8@1+ (1,0) [0|inf] "" Dash\<close>:
  \<open>float("inf")\<close> is the positive infinity.\<close>

definition sig_unbounded :: Signal where
  "sig_unbounded = new_Signal\<lparr> sg_name := ''Speed'', start_bit := 0, sg_length := 8,
     byte_order := 1, value_type := ''+'', factor := Finite 1, offset := Finite 0,
     minimum := Finite 0, maximum := PInf, sg_unit := '''', receivers := [''Dash''] \<rparr>"

definition msg_unbounded :: Message where
  "msg_unbounded = new_Message\<lparr> msg_id := 256, msg_name := ''Engine'', dlc := 8,
     transmitter := ''ECU'', signals := [(''Speed'', sig_unbounded)] \<rparr>"

definition db_unbounded :: DBCDatabase where
  "db_unbounded = new_DBCDatabase\<lparr> messages := [(256, msg_unbounded)] \<rparr>"

definition sm_unbounded :: SigMatch where
  "sm_unbounded = \<lparr> g_name = ''Speed'', g_start_bit = 0, g_length = 8, g_byte_order = 1,
     g_value_type = ''+'', g_factor = ''1'', g_offset = ''0'', g_minimum = ''0'',
     g_maximum = ''inf'', g_unit = '''', g_receivers = ''Dash'' \<rparr>"

definition doc_unbounded :: "drec list" where
  "doc_unbounded = [BO 256 ''Engine'' 8 ''ECU'', SG sm_unbounded]"


text \<open>A document with a message that declares no signal, a comment for a signal it does
  not have, and a comment for the message.\<close>

definition msg_plain :: Message where
  "msg_plain = new_Message\<lparr> msg_id := 256, msg_name := ''Engine'', dlc := 8,
     transmitter := ''ECU'', signals := [] \<rparr>"

definition doc_head :: "drec list" where
  "doc_head = [BO 256 ''Engine'' 8 ''ECU'']"

definition doc_tail :: "drec list" where
  "doc_tail = [CM_BO 256 ''kept'']"


text \<open>A document in which every key occurs twice: two declarations of message 256, two
  of its signal \<open>Speed\<close>, two cycle times and two comments.\<close>

definition sm_first :: SigMatch where
  "sm_first = \<lparr> g_name = ''Speed'', g_start_bit = 0, g_length = 8, g_byte_order = 1,
     g_value_type = ''+'', g_factor = ''1'', g_offset = ''0'', g_minimum = ''0'',
     g_maximum = ''0'', g_unit = '''', g_receivers = ''Dash'' \<rparr>"

definition sm_last :: SigMatch where
  "sm_last = sm_first\<lparr> g_length := 16 \<rparr>"

definition doc_twice :: "drec list" where
  "doc_twice = [BO 256 ''Old'' 4 ''A'',
     BO 256 ''Engine'' 8 ''ECU'', SG sm_first, SG sm_last,
     BA_BO_INT ''GenMsgCycleTime'' 256 10, BA_BO_INT ''GenMsgCycleTime'' 256 20,
     CM_SG 256 ''Speed'' ''first'', CM_SG 256 ''Speed'' ''second'']"







section \<open>Properties of the differ\<close>

subsection \<open>Iteration order\<close>

lemma all_msg_ids_sorted: "sorted_wrt (<) (all_msg_ids old_db new_db)"
  unfolding all_msg_ids_def
  by (simp add: strict_sorted_iff)

lemma set_all_msg_ids:
  "set (all_msg_ids old_db new_db) = set (od_keys (messages old_db)) \<union> set (od_keys (messages new_db))"
  by (simp add: all_msg_ids_def)

lemma sort_remdups_cong: "set xs = set ys \<Longrightarrow> sort (remdups xs) = sort (remdups (ys :: nat list))"
  using sorted_list_of_set_sort_remdups[of xs] sorted_list_of_set_sort_remdups[of ys] by simp





subsection \<open>Rows and their comparison\<close>

text \<open>Every cell of a row that one of the \<open>build_\<close> functions returns is left unchanged by
  \<open>normalize_val\<close>, so the comparison of two such rows cannot raise and reports exactly
  the columns whose cells differ.\<close>

lemma normal_simps [simp]: "normal PNone" "normal (PInt i)" "normal (PStr s)"
  by (simp_all add: normal_def)

lemma normal_or_none [simp]: "normal (or_none s)"
  by (simp add: or_none_def)

lemma py_int_finite: "py_int f = Inr i \<Longrightarrow> \<exists>q. f = Finite q"
  by (cases f) simp_all

lemma format_number_normal: "format_number v = Inr w \<Longrightarrow> normal w"
proof (cases v)
  case (PFloat f)
  assume a: "format_number v = Inr w"
  then obtain q where q: "f = Finite q"
    using PFloat by (cases f) auto
  show ?thesis
    using a PFloat q by (auto simp: normal_def split: if_splits)
qed (auto simp: normal_def)

lemma format_number_finite:
  "finite_float f \<Longrightarrow> \<exists>w. format_number (PFloat f) = Inr w \<and> normal w"
  by (cases f) (auto simp: normal_def)

lemma format_number_error:
  "\<not> finite_float f \<Longrightarrow> \<exists>e. format_number (PFloat f) = Inl e"
  by (cases f) auto

lemma py_ne_normal_refl: "normal v \<Longrightarrow> \<not> py_ne v v"
proof (cases v)
  case (PFloat f)
  assume "normal v"
  then show ?thesis
    using PFloat by (cases f) (auto simp: normal_def)
qed auto

lemma check_cols_normal:
  assumes "\<forall>i\<in>set is. i < length new_row \<and> normal (old_row ! i) \<and> normal (new_row ! i)"
  shows "check_cols old_row new_row is acc = Inr (acc \<union> {i \<in> set is. py_ne (old_row ! i) (new_row ! i)})"
  using assms
proof (induction "is" arbitrary: acc)
  case Nil
  then show ?case by simp
next
  case (Cons i "is")
  then have n: "normalize_val (old_row ! i) = Inr (old_row ! i)" "normalize_val (new_row ! i) = Inr (new_row ! i)"
    "i < length new_row"
    by (simp_all add: normal_def)
  have "check_cols old_row new_row (i # is) acc =
        check_cols old_row new_row is (if py_ne (old_row ! i) (new_row ! i) then insert i acc else acc)"
    using n by simp
  also have "\<dots> = Inr ((if py_ne (old_row ! i) (new_row ! i) then insert i acc else acc)
        \<union> {j \<in> set is. py_ne (old_row ! j) (new_row ! j)})"
    using Cons by simp
  finally show ?case by auto
qed

lemma check_row_diff_normal:
  assumes "length old_row \<le> length new_row" "list_all normal old_row" "list_all normal new_row"
  shows "check_row_diff old_row new_row =
     Inr ({i. i < length old_row \<and> py_ne (old_row ! i) (new_row ! i)} \<noteq> {},
          {i. i < length old_row \<and> py_ne (old_row ! i) (new_row ! i)})"
proof -
  have "\<forall>i\<in>set [0 ..< length old_row]. i < length new_row \<and> normal (old_row ! i) \<and> normal (new_row ! i)"
    using assms by (auto simp: list_all_length)
  then have "check_cols old_row new_row [0 ..< length old_row] {} =
     Inr ({} \<union> {i \<in> set [0 ..< length old_row]. py_ne (old_row ! i) (new_row ! i)})"
    by (rule check_cols_normal)
  then show ?thesis by (simp add: check_row_diff_def)
qed

lemma diff_indices_normal:
  assumes "\<forall>i\<in>set is. i < length new_row \<and> normal (old_row ! i) \<and> normal (new_row ! i)"
  shows "diff_indices old_row new_row is = Inr (filter (\<lambda>i. py_ne (old_row ! i) (new_row ! i)) is)"
  using assms by (induction "is") (simp_all add: normal_def)

lemma row_diffs_normal:
  assumes "length old_row \<le> length new_row" "list_all normal old_row" "list_all normal new_row"
  shows "row_diffs old_row new_row =
     Inr (filter (\<lambda>i. py_ne (old_row ! i) (new_row ! i)) [0 ..< length old_row])"
  unfolding row_diffs_def
  using assms by (intro diff_indices_normal) (auto simp: list_all_length)

lemma msg_part_length [simp]: "length (msg_part m) = 19"
  by (simp add: msg_part_def)

lemma msg_part_normal [simp]: "list_all normal (msg_part m)"
  by (simp add: msg_part_def)

lemma build_empty_msg_row_length [simp]: "length (build_empty_msg_row m) = 37"
  by (simp add: build_empty_msg_row_def NUM_SIG_COLS_def)

lemma build_empty_msg_row_normal [simp]: "list_all normal (build_empty_msg_row m)"
  using msg_part_normal[of m] by (auto simp: build_empty_msg_row_def list_all_iff)

lemma build_empty_row_length [simp]: "length build_empty_row = 37"
  by (simp add: build_empty_row_def NUM_COLS_PER_SIDE_def NUM_MSG_COLS_def NUM_SIG_COLS_def)

lemma build_signal_row_Inr:
  assumes "build_signal_row m sg = Inr row"
  shows "length row = 37 \<and> list_all normal row \<and> finite_sig sg \<and> take 19 row = msg_part m"
proof -
  from assms obtain sc off mn mx where
    f: "format_number (PFloat (factor sg)) = Inr sc" "format_number (PFloat (offset sg)) = Inr off"
       "format_number (PFloat (minimum sg)) = Inr mn" "format_number (PFloat (maximum sg)) = Inr mx"
    by (auto simp: build_signal_row_def split: sum.splits)
  have fin: "finite_sig sg"
    using f format_number_error unfolding finite_sig_def by fastforce
  have n: "normal sc" "normal off" "normal mn" "normal mx"
    by (rule format_number_normal, rule f)+
  show ?thesis
    using assms n fin unfolding build_signal_row_def f by auto
qed

lemma build_signal_row_finite:
  assumes "finite_sig sg"
  shows "\<exists>row. build_signal_row m sg = Inr row"
proof -
  from assms obtain sc off mn mx where
    "format_number (PFloat (factor sg)) = Inr sc" "format_number (PFloat (offset sg)) = Inr off"
    "format_number (PFloat (minimum sg)) = Inr mn" "format_number (PFloat (maximum sg)) = Inr mx"
    unfolding finite_sig_def by (meson format_number_finite)
  then show ?thesis unfolding build_signal_row_def by simp
qed

lemma plain_normal: "plain v \<Longrightarrow> normal v"
  by (cases v) simp_all

lemma py_ne_plain: "plain a \<Longrightarrow> plain b \<Longrightarrow> py_ne a b = (a \<noteq> b)"
  by (cases a; cases b) simp_all

lemma plain_or_none [simp]: "plain (or_none s)"
  by (simp add: or_none_def)

lemma msg_part_plain [simp]: "list_all plain (msg_part m)"
  by (simp add: msg_part_def)

lemma rows_loop_append:
  "rows_loop body (xs @ ys) rows =
     (case rows_loop body xs rows of Inl e \<Rightarrow> Inl e | Inr r \<Rightarrow> rows_loop body ys r)"
  by (induction xs arbitrary: rows) (simp_all split: sum.splits)

lemma rows_loop_acc:
  "rows_loop body xs rows = (case rows_loop body xs [] of Inl e \<Rightarrow> Inl e | Inr r \<Rightarrow> Inr (rows @ r))"
proof (induction xs arbitrary: rows)
  case Nil
  then show ?case by simp
next
  case (Cons x xs)
  show ?case
  proof (cases "body x")
    case (Inl e)
    then show ?thesis by simp
  next
    case (Inr rs)
    have "rows_loop body (x # xs) rows = rows_loop body xs (rows @ rs)"
      using Inr by simp
    also have "\<dots> = (case rows_loop body xs [] of Inl e \<Rightarrow> Inl e | Inr r \<Rightarrow> Inr ((rows @ rs) @ r))"
      by (rule Cons.IH)
    finally have a: "rows_loop body (x # xs) rows =
        (case rows_loop body xs [] of Inl e \<Rightarrow> Inl e | Inr r \<Rightarrow> Inr ((rows @ rs) @ r))" .
    have "rows_loop body (x # xs) [] = rows_loop body xs rs"
      using Inr by simp
    also have "\<dots> = (case rows_loop body xs [] of Inl e \<Rightarrow> Inl e | Inr r \<Rightarrow> Inr (rs @ r))"
      by (rule Cons.IH)
    finally show ?thesis
      using a by (simp split: sum.splits)
  qed
qed

lemma rows_loop_Inr:
  assumes "\<forall>x\<in>set xs. body x = Inr (f x)"
  shows "rows_loop body xs rows = Inr (rows @ concat (map f xs))"
  using assms by (induction xs arbitrary: rows) simp_all

lemma rows_loop_returns:
  assumes "rows_loop body xs rows = Inr r"
  shows "\<forall>x\<in>set xs. \<exists>rs. body x = Inr rs"
  using assms by (induction xs arbitrary: rows) (auto split: sum.splits)

lemma sorted_split:
  "sorted_wrt (<) xs \<Longrightarrow> (x::nat) \<in> set xs \<Longrightarrow>
     xs = filter (\<lambda>i. i < x) xs @ x # filter (\<lambda>i. x < i) xs"
proof (induction xs)
  case Nil
  then show ?case by simp
next
  case (Cons a xs)
  show ?case
  proof (cases "a = x")
    case True
    have "\<forall>y\<in>set xs. x < y" using Cons.prems True by simp
    then have "filter (\<lambda>i. i < x) xs = []" "filter (\<lambda>i. x < i) xs = xs"
      by (auto simp: filter_empty_conv filter_id_conv)
    then show ?thesis using True by simp
  next
    case False
    then have "x \<in> set xs" using Cons.prems by simp
    moreover have "a < x" using Cons.prems False \<open>x \<in> set xs\<close> by auto
    ultimately show ?thesis using Cons by auto
  qed
qed

text \<open>The result of the row-level view is the rows of the smaller ids, the rows of one
  id, and the rows of the larger ids.\<close>

lemma compare_dbc_files_split:
  assumes "mid \<in> set (all_msg_ids old_db new_db)"
    and "compare_dbc_files old_db new_db = Inr rows"
  shows "\<exists>before rs after.
      rows_loop (compare_msg old_db new_db) (filter (\<lambda>i. i < mid) (all_msg_ids old_db new_db)) [] = Inr before
    \<and> compare_msg old_db new_db mid = Inr rs
    \<and> rows_loop (compare_msg old_db new_db) (filter (\<lambda>i. mid < i) (all_msg_ids old_db new_db)) [] = Inr after
    \<and> rows = before @ rs @ after"
proof -
  let ?ids = "all_msg_ids old_db new_db"
  let ?lo = "filter (\<lambda>i. i < mid) ?ids" and ?hi = "filter (\<lambda>i. mid < i) ?ids"
  let ?b = "compare_msg old_db new_db"
  have ids: "?ids = ?lo @ mid # ?hi"
    using all_msg_ids_sorted assms(1) by (rule sorted_split)
  have "rows_loop ?b (?lo @ mid # ?hi) [] = Inr rows"
    using assms(2) ids unfolding compare_dbc_files_def by simp
  then obtain before where b: "rows_loop ?b ?lo [] = Inr before"
      and r1: "rows_loop ?b (mid # ?hi) before = Inr rows"
    by (auto simp: rows_loop_append split: sum.splits)
  from r1 obtain rs where m: "?b mid = Inr rs" and r2: "rows_loop ?b ?hi (before @ rs) = Inr rows"
    by (auto split: sum.splits)
  from r2 obtain after where a: "rows_loop ?b ?hi [] = Inr after" and "rows = (before @ rs) @ after"
    using rows_loop_acc[of ?b ?hi "before @ rs"] by (auto split: sum.splits)
  then show ?thesis using b m by auto
qed

lemma od_get_in_keys: "od_get d k = Some v \<Longrightarrow> k \<in> set (od_keys d)"
  unfolding od_get_def od_keys_def by (metis map_of_SomeD fst_conv image_eqI set_map)

lemma check_row_diff_empty_msg_rows:
  "check_row_diff (build_empty_msg_row a) (build_empty_msg_row b) =
     Inr ({i. i < 19 \<and> msg_part a ! i \<noteq> msg_part b ! i} \<noteq> {},
          {i. i < 19 \<and> msg_part a ! i \<noteq> msg_part b ! i})"
proof -
  let ?D = "{i. i < length (build_empty_msg_row a) \<and> py_ne (build_empty_msg_row a ! i) (build_empty_msg_row b ! i)}"
  have "?D = {i. i < 19 \<and> msg_part a ! i \<noteq> msg_part b ! i}"
  proof (rule set_eqI)
    fix i
    show "i \<in> ?D \<longleftrightarrow> i \<in> {i. i < 19 \<and> msg_part a ! i \<noteq> msg_part b ! i}"
    proof (cases "i < 19")
      case True
      then have "plain (msg_part a ! i)" "plain (msg_part b ! i)"
        using msg_part_plain[of a] msg_part_plain[of b] by (simp_all add: list_all_length)
      then show ?thesis
        using True by (simp add: build_empty_msg_row_def nth_append py_ne_plain)
    next
      case False
      then show ?thesis
        by (auto simp add: build_empty_msg_row_def nth_append NUM_SIG_COLS_def)
    qed
  qed
  then show ?thesis
    using check_row_diff_normal[of "build_empty_msg_row a" "build_empty_msg_row b"] by simp
qed

subsection \<open>Messages without signals\<close>

text \<open>
  Claim C10. A message id present in both databases whose message has no signal in
  either version contributes exactly one tuple to the row-level view: both rows are the
  message columns followed by \<open>None\<close> in every signal column, the changed-column set
  holds exactly the message columns whose cells differ, and the difference flag says
  whether that set is non-empty. With equal message columns the tuple reports no
  difference. In the result of \<open>compare_dbc_files\<close> this tuple stands between the rows
  of the smaller ids and the rows of the larger ids.
\<close>

theorem zero_signal_message_row:
  assumes "od_get (messages old_db) mid = Some old_msg"
    and "od_get (messages new_db) mid = Some new_msg"
    and "signals old_msg = []" and "signals new_msg = []"
  shows "\<exists>has_diff diff_cols.
      compare_msg old_db new_db mid =
        Inr [(msg_part old_msg @ replicate NUM_SIG_COLS PNone,
              msg_part new_msg @ replicate NUM_SIG_COLS PNone, has_diff, diff_cols)]
    \<and> diff_cols = {i. i < NUM_MSG_COLS \<and> msg_part old_msg ! i \<noteq> msg_part new_msg ! i}
    \<and> has_diff = (diff_cols \<noteq> {})
    \<and> (msg_part old_msg = msg_part new_msg \<longrightarrow> \<not> has_diff \<and> diff_cols = {})
    \<and> (\<forall>rows. compare_dbc_files old_db new_db = Inr rows \<longrightarrow>
          (\<exists>before after.
             rows_loop (compare_msg old_db new_db)
               (filter (\<lambda>i. i < mid) (all_msg_ids old_db new_db)) [] = Inr before
           \<and> rows_loop (compare_msg old_db new_db)
               (filter (\<lambda>i. mid < i) (all_msg_ids old_db new_db)) [] = Inr after
           \<and> rows = before @ [(msg_part old_msg @ replicate NUM_SIG_COLS PNone,
                msg_part new_msg @ replicate NUM_SIG_COLS PNone, has_diff, diff_cols)] @ after))"
proof -
  let ?D = "{i. i < NUM_MSG_COLS \<and> msg_part old_msg ! i \<noteq> msg_part new_msg ! i}"
  let ?row = "(msg_part old_msg @ replicate NUM_SIG_COLS PNone,
               msg_part new_msg @ replicate NUM_SIG_COLS PNone, ?D \<noteq> {}, ?D)"
  have "compare_msg old_db new_db mid =
      Inr [(build_empty_msg_row old_msg, build_empty_msg_row new_msg, ?D \<noteq> {}, ?D)]"
    using assms
    by (simp add: compare_msg_def fromkeys_def od_keys_def check_row_diff_empty_msg_rows
        NUM_MSG_COLS_def)
  then have one: "compare_msg old_db new_db mid = Inr [?row]"
    by (simp add: build_empty_msg_row_def)
  have mem: "mid \<in> set (all_msg_ids old_db new_db)"
    using od_get_in_keys[OF assms(1)] by (simp add: set_all_msg_ids)
  have glob: "\<exists>before after.
             rows_loop (compare_msg old_db new_db)
               (filter (\<lambda>i. i < mid) (all_msg_ids old_db new_db)) [] = Inr before
           \<and> rows_loop (compare_msg old_db new_db)
               (filter (\<lambda>i. mid < i) (all_msg_ids old_db new_db)) [] = Inr after
           \<and> rows = before @ [?row] @ after"
    if "compare_dbc_files old_db new_db = Inr rows" for rows
    using compare_dbc_files_split[OF mem that] one by auto
  have same: "msg_part old_msg = msg_part new_msg \<longrightarrow> \<not> (?D \<noteq> {}) \<and> ?D = {}"
    by simp
  show ?thesis
    using one glob same by blast
qed

lemma ex_lookup:
  "od_get (messages db_both) 512 = Some msg_status"
  "od_get (messages db_both) 256 = Some msg_engine"
  "od_get (messages db_both_reordered) 512 = Some msg_status"
  "od_get (messages db_both_reordered) 256 = Some msg_engine"
  "od_get (messages db_status_only) 512 = Some msg_status"
  "od_get (messages db_status_only) 256 = None"
  by (simp_all add: db_both_def db_both_reordered_def db_status_only_def new_DBCDatabase_def od_get_def)

theorem zero_signal_message_row_witness:
  "compare_msg db_both db_status_only 512 =
     Inr [(msg_part msg_status @ replicate NUM_SIG_COLS PNone,
           msg_part msg_status @ replicate NUM_SIG_COLS PNone, False, {})]"
proof -
  have s: "signals msg_status = []"
    by (simp add: msg_status_def new_Message_def)
  show ?thesis
    using zero_signal_message_row[OF ex_lookup(1) ex_lookup(5) s s] by auto
qed

subsection \<open>The loops of the categorized diff\<close>

lemma cats_append_empty [simp]:
  "cats_append c empty_categories = c" "cats_append empty_categories c = c"
  by (simp_all add: cats_append_def empty_categories_def)

lemma cats_append_assoc: "cats_append (cats_append a b) c = cats_append a (cats_append b c)"
  by (simp add: cats_append_def)

lemma cats_append_sel [simp]:
  "new_messages (cats_append c d) = new_messages c @ new_messages d"
  "removed_messages (cats_append c d) = removed_messages c @ removed_messages d"
  "modified_messages (cats_append c d) = modified_messages c @ modified_messages d"
  "new_signals (cats_append c d) = new_signals c @ new_signals d"
  "removed_signals (cats_append c d) = removed_signals c @ removed_signals d"
  "modified_signals (cats_append c d) = modified_signals c @ modified_signals d"
  by (simp_all add: cats_append_def)

text \<open>A loop body that only appends to the six lists.\<close>

lemma cats_loop_acc:
  assumes "\<And>x c. body x c = (case body x empty_categories of Inl e \<Rightarrow> Inl e | Inr d \<Rightarrow> Inr (cats_append c d))"
  shows "cats_loop body xs c =
     (case cats_loop body xs empty_categories of Inl e \<Rightarrow> Inl e | Inr d \<Rightarrow> Inr (cats_append c d))"
proof (induction xs arbitrary: c)
  case Nil
  then show ?case by simp
next
  case (Cons x xs)
  show ?case
  proof (cases "body x empty_categories")
    case (Inl e)
    then show ?thesis using assms[of x c] by simp
  next
    case (Inr d)
    have b: "body x c = Inr (cats_append c d)"
      using assms[of x c] Inr by simp
    have "cats_loop body (x # xs) c = cats_loop body xs (cats_append c d)"
      using b by simp
    also have "\<dots> = (case cats_loop body xs empty_categories of Inl e \<Rightarrow> Inl e
         | Inr d' \<Rightarrow> Inr (cats_append (cats_append c d) d'))"
      by (rule Cons.IH)
    finally have l: "cats_loop body (x # xs) c = (case cats_loop body xs empty_categories of Inl e \<Rightarrow> Inl e
         | Inr d' \<Rightarrow> Inr (cats_append (cats_append c d) d'))" .
    have "cats_loop body (x # xs) empty_categories = cats_loop body xs d"
      using Inr by simp
    also have "\<dots> = (case cats_loop body xs empty_categories of Inl e \<Rightarrow> Inl e
         | Inr d' \<Rightarrow> Inr (cats_append d d'))"
      by (rule Cons.IH)
    finally show ?thesis
      using l by (simp add: cats_append_assoc split: sum.splits)
  qed
qed

lemma cats_loop_append:
  "cats_loop body (xs @ ys) c =
     (case cats_loop body xs c of Inl e \<Rightarrow> Inl e | Inr c' \<Rightarrow> cats_loop body ys c')"
  by (induction xs arbitrary: c) (simp_all split: sum.splits)

lemma categorize_sig_pair_acc:
  "categorize_sig_pair old_msg new_msg so sn c =
     (case categorize_sig_pair old_msg new_msg so sn empty_categories of
        Inl e \<Rightarrow> Inl e | Inr d \<Rightarrow> Inr (cats_append c d))"
  by (cases so; cases sn) (auto simp: cats_append_def empty_categories_def split: sum.splits)

lemma categorize_sig_acc:
  "categorize_sig old_msg new_msg nm c =
     (case categorize_sig old_msg new_msg nm empty_categories of
        Inl e \<Rightarrow> Inl e | Inr d \<Rightarrow> Inr (cats_append c d))"
  unfolding categorize_sig_def by (rule categorize_sig_pair_acc)

lemma categorize_pair_acc:
  "categorize_pair a b c =
     (case categorize_pair a b empty_categories of Inl e \<Rightarrow> Inl e | Inr d \<Rightarrow> Inr (cats_append c d))"
proof (cases a; cases b)
  fix old_msg new_msg
  assume ab: "a = Some old_msg" "b = Some new_msg"
  let ?names = "fromkeys (od_keys (signals old_msg) @ od_keys (signals new_msg))"
  let ?body = "categorize_sig old_msg new_msg"
  have loop: "cats_loop ?body ?names c' =
     (case cats_loop ?body ?names empty_categories of Inl e \<Rightarrow> Inl e | Inr d \<Rightarrow> Inr (cats_append c' d))" for c'
    by (rule cats_loop_acc) (rule categorize_sig_acc)
  show ?thesis
  proof (cases "row_diffs (build_msg_summary_row old_msg) (build_msg_summary_row new_msg)")
    case (Inl e)
    then show ?thesis using ab by simp
  next
    case (Inr msg_diffs)
    let ?m = "empty_categories\<lparr>modified_messages := [(old_msg, new_msg, msg_diffs)]\<rparr>"
    have m: "c\<lparr>modified_messages := modified_messages c @ [(old_msg, new_msg, msg_diffs)]\<rparr> = cats_append c ?m"
      by (simp add: cats_append_def empty_categories_def)
    have e: "empty_categories\<lparr>modified_messages := modified_messages empty_categories @ [(old_msg, new_msg, msg_diffs)]\<rparr> = ?m"
      by (simp add: empty_categories_def)
    show ?thesis
    proof (cases "msg_diffs = []")
      case True
      then show ?thesis using ab Inr loop[of c] by simp
    next
      case False
      then show ?thesis
        using ab Inr loop[of "cats_append c ?m"] loop[of ?m]
        by (simp add: m e cats_append_assoc split: sum.splits)
    qed
  qed
qed (auto simp: cats_append_def empty_categories_def)

lemma categorize_msg_acc:
  "categorize_msg old_db new_db mid c =
     (case categorize_msg old_db new_db mid empty_categories of
        Inl e \<Rightarrow> Inl e | Inr d \<Rightarrow> Inr (cats_append c d))"
  unfolding categorize_msg_def by (rule categorize_pair_acc)

text \<open>The categorized diff is the result for the smaller ids, followed by the
  contribution of one id and the contribution of the larger ids.\<close>

lemma categorize_changes_split:
  assumes "mid \<in> set (all_msg_ids old_db new_db)"
    and "categorize_changes old_db new_db = Inr cats"
  shows "\<exists>before d after.
      cats_loop (categorize_msg old_db new_db) (filter (\<lambda>i. i < mid) (all_msg_ids old_db new_db))
        empty_categories = Inr before
    \<and> categorize_msg old_db new_db mid empty_categories = Inr d
    \<and> cats_loop (categorize_msg old_db new_db) (filter (\<lambda>i. mid < i) (all_msg_ids old_db new_db))
        empty_categories = Inr after
    \<and> cats = cats_append before (cats_append d after)"
proof -
  let ?ids = "all_msg_ids old_db new_db"
  let ?lo = "filter (\<lambda>i. i < mid) ?ids" and ?hi = "filter (\<lambda>i. mid < i) ?ids"
  let ?b = "categorize_msg old_db new_db"
  have ids: "?ids = ?lo @ mid # ?hi"
    using all_msg_ids_sorted assms(1) by (rule sorted_split)
  have "cats_loop ?b (?lo @ mid # ?hi) empty_categories = Inr cats"
    using assms(2) ids unfolding categorize_changes_def by simp
  then obtain before where b: "cats_loop ?b ?lo empty_categories = Inr before"
      and r1: "cats_loop ?b (mid # ?hi) before = Inr cats"
    by (auto simp: cats_loop_append split: sum.splits)
  from r1 obtain c1 where m1: "?b mid before = Inr c1" and r2: "cats_loop ?b ?hi c1 = Inr cats"
    by (auto split: sum.splits)
  from m1 obtain d where d: "?b mid empty_categories = Inr d" and c1: "c1 = cats_append before d"
    using categorize_msg_acc[of old_db new_db mid before] by (auto split: sum.splits)
  have "cats_loop ?b ?hi c1 =
     (case cats_loop ?b ?hi empty_categories of Inl e \<Rightarrow> Inl e | Inr d \<Rightarrow> Inr (cats_append c1 d))"
    by (rule cats_loop_acc) (rule categorize_msg_acc)
  with r2 obtain after where a: "cats_loop ?b ?hi empty_categories = Inr after"
      and "cats = cats_append c1 after"
    by (auto split: sum.splits)
  then show ?thesis using b d c1 by (auto simp: cats_append_assoc)
qed

subsection \<open>Messages present on one side only\<close>

lemma rows_loop_result:
  assumes "rows_loop body xs rows = Inr r"
  shows "r = rows @ concat (map (\<lambda>x. projr (body x)) xs) \<and> (\<forall>x\<in>set xs. \<exists>rs. body x = Inr rs)"
  using assms
proof (induction xs arbitrary: rows)
  case Nil
  then show ?case by simp
next
  case (Cons x xs)
  from Cons.prems obtain rs where b: "body x = Inr rs" and l: "rows_loop body xs (rows @ rs) = Inr r"
    by (auto split: sum.splits)
  from Cons.IH[OF l] show ?case using b by simp
qed

lemma length_concat_singletons:
  "(\<And>x. x \<in> set xs \<Longrightarrow> length (f x) = 1) \<Longrightarrow> length (concat (map f xs)) = length xs"
  by (induction xs) auto

lemma one_sided_rows:
  assumes "rows_loop (\<lambda>sg. case build_signal_row m sg of Inl e \<Rightarrow> Inl e | Inr row \<Rightarrow> Inr [g row]) sgs [] = Inr rs"
  shows "length rs = length sgs \<and> (\<forall>t\<in>set rs. \<exists>row. t = g row \<and> length row = 37)"
proof -
  let ?body = "\<lambda>sg. case build_signal_row m sg of Inl e \<Rightarrow> Inl e | Inr row \<Rightarrow> Inr [g row]"
  have r: "rs = concat (map (\<lambda>x. projr (?body x)) sgs)" and ok: "\<forall>x\<in>set sgs. \<exists>rs. ?body x = Inr rs"
    using rows_loop_result[OF assms] by simp_all
  have each: "\<exists>row. projr (?body x) = [g row] \<and> length row = 37" if "x \<in> set sgs" for x
  proof -
    from ok that obtain row where "build_signal_row m x = Inr row"
      by (cases "build_signal_row m x") auto
    then show ?thesis using build_signal_row_Inr by auto
  qed
  have "length (projr (?body x)) = 1" if "x \<in> set sgs" for x
    using each[OF that] by auto
  then have len: "length (concat (map (\<lambda>x. projr (?body x)) sgs)) = length sgs"
    by (rule length_concat_singletons)
  have "\<forall>t\<in>set (concat (map (\<lambda>x. projr (?body x)) sgs)). \<exists>row. t = g row \<and> length row = 37"
    using each by fastforce
  then show ?thesis using r len by simp
qed

lemma one_sided_rows_finite:
  assumes "\<forall>sg\<in>set sgs. finite_sig sg"
  shows "\<exists>rs. rows_loop (\<lambda>sg. case build_signal_row m sg of Inl e \<Rightarrow> Inl e | Inr row \<Rightarrow> Inr [g row]) sgs rows = Inr rs"
  using assms
proof (induction sgs arbitrary: rows)
  case Nil
  then show ?case by simp
next
  case (Cons sg sgs)
  then obtain row where "build_signal_row m sg = Inr row"
    using build_signal_row_finite[of sg m] by auto
  then show ?case using Cons by simp
qed

lemma all_changed_eq: "all_changed = {0 ..< 37}"
  by (simp add: all_changed_def NUM_COLS_PER_SIDE_def NUM_MSG_COLS_def NUM_SIG_COLS_def)

lemma removed_message_rows:
  assumes "compare_pair (Some m) None = Inr rs"
  shows "length rs = (if signals m = [] then 1 else length (signals m))
     \<and> (\<forall>t\<in>set rs. \<exists>row. t = (row, build_empty_row, True, all_changed) \<and> length row = NUM_COLS_PER_SIDE)"
proof (cases "signals m = []")
  case True
  then show ?thesis
    using assms by (auto simp: NUM_COLS_PER_SIDE_def NUM_MSG_COLS_def NUM_SIG_COLS_def)
next
  case False
  then have "rows_loop (\<lambda>sg. case build_signal_row m sg of Inl e \<Rightarrow> Inl e
       | Inr row \<Rightarrow> Inr [(\<lambda>row. (row, build_empty_row, True, all_changed)) row]) (od_values (signals m)) [] = Inr rs"
    using assms by simp
  from one_sided_rows[OF this] show ?thesis
    using False by (simp add: od_values_def NUM_COLS_PER_SIDE_def NUM_MSG_COLS_def NUM_SIG_COLS_def)
qed

lemma added_message_rows:
  assumes "compare_pair None (Some m) = Inr rs"
  shows "length rs = (if signals m = [] then 1 else length (signals m))
     \<and> (\<forall>t\<in>set rs. \<exists>row. t = (build_empty_row, row, True, all_changed) \<and> length row = NUM_COLS_PER_SIDE)"
proof (cases "signals m = []")
  case True
  then show ?thesis
    using assms by (auto simp: NUM_COLS_PER_SIDE_def NUM_MSG_COLS_def NUM_SIG_COLS_def)
next
  case False
  then have "rows_loop (\<lambda>sg. case build_signal_row m sg of Inl e \<Rightarrow> Inl e
       | Inr row \<Rightarrow> Inr [(\<lambda>row. (build_empty_row, row, True, all_changed)) row]) (od_values (signals m)) [] = Inr rs"
    using assms by simp
  from one_sided_rows[OF this] show ?thesis
    using False by (simp add: od_values_def NUM_COLS_PER_SIDE_def NUM_MSG_COLS_def NUM_SIG_COLS_def)
qed

lemma one_sided_rows_return:
  assumes "\<forall>sg\<in>set (od_values (signals m)). finite_sig sg"
  shows "\<exists>rs. compare_pair (Some m) None = Inr rs" "\<exists>rs. compare_pair None (Some m) = Inr rs"
  using one_sided_rows_finite[OF assms, where m = m and rows = "[]"
          and g = "\<lambda>row. (row, build_empty_row, True, all_changed)"]
        one_sided_rows_finite[OF assms, where m = m and rows = "[]"
          and g = "\<lambda>row. (build_empty_row, row, True, all_changed)"]
  by auto

lemma removed_message_categories:
  assumes "od_get (messages old_db) mid = Some m" "od_get (messages new_db) mid = None"
    and "categorize_changes old_db new_db = Inr cats"
  shows "m \<in> set (removed_messages cats)
     \<and> (\<forall>sg\<in>set (od_values (signals m)). (m, sg) \<in> set (removed_signals cats))"
proof -
  have mem: "mid \<in> set (all_msg_ids old_db new_db)"
    using od_get_in_keys[OF assms(1)] by (simp add: set_all_msg_ids)
  from categorize_changes_split[OF mem assms(3)] obtain before d after where
    d: "categorize_msg old_db new_db mid empty_categories = Inr d"
    and c: "cats = cats_append before (cats_append d after)"
    by blast
  have "d = empty_categories\<lparr>removed_messages := [m],
            removed_signals := map (Pair m) (od_values (signals m))\<rparr>"
    using d assms(1,2) by (simp add: categorize_msg_def empty_categories_def)
  then show ?thesis using c by auto
qed

lemma added_message_categories:
  assumes "od_get (messages old_db) mid = None" "od_get (messages new_db) mid = Some m"
    and "categorize_changes old_db new_db = Inr cats"
  shows "m \<in> set (new_messages cats)
     \<and> (\<forall>sg\<in>set (od_values (signals m)). (m, sg) \<in> set (new_signals cats))"
proof -
  have mem: "mid \<in> set (all_msg_ids old_db new_db)"
    using od_get_in_keys[OF assms(2)] by (simp add: set_all_msg_ids)
  from categorize_changes_split[OF mem assms(3)] obtain before d after where
    d: "categorize_msg old_db new_db mid empty_categories = Inr d"
    and c: "cats = cats_append before (cats_append d after)"
    by blast
  have "d = empty_categories\<lparr>new_messages := [m],
            new_signals := map (Pair m) (od_values (signals m))\<rparr>"
    using d assms(1,2) by (simp add: categorize_msg_def empty_categories_def)
  then show ?thesis using c by auto
qed

lemma compare_dbc_files_contains:
  assumes "mid \<in> set (all_msg_ids old_db new_db)" "compare_dbc_files old_db new_db = Inr rows"
  shows "\<exists>before rs after. compare_msg old_db new_db mid = Inr rs \<and> rows = before @ rs @ after"
  using compare_dbc_files_split[OF assms] by blast

text \<open>
  Claim C5. A message id present only in the old database is classified as removed, and
  each signal it owns is classified as removed with it; every row of the row-level view
  emitted for that id has the difference flag set and all \<open>NUM_COLS_PER_SIDE\<close> column
  indices in its changed-column set, with an old row of that length and an empty new
  row; these rows are part of the result of \<open>compare_dbc_files\<close>, one per signal (one in
  all for a message without signals), and they are emitted whenever the numeric fields of
  the signals are finite. The same holds, with the sides exchanged, for a message id
  present only in the new database.
\<close>

theorem whole_message_cascade:
  "(od_get (messages old_db) mid = Some m \<and> od_get (messages new_db) mid = None \<longrightarrow>
      categorize_msg old_db new_db mid empty_categories =
        Inr (empty_categories\<lparr>removed_messages := [m],
               removed_signals := map (Pair m) (od_values (signals m))\<rparr>)
    \<and> (\<forall>cats. categorize_changes old_db new_db = Inr cats \<longrightarrow>
          m \<in> set (removed_messages cats)
        \<and> (\<forall>sg\<in>set (od_values (signals m)). (m, sg) \<in> set (removed_signals cats)))
    \<and> (\<forall>rs. compare_msg old_db new_db mid = Inr rs \<longrightarrow>
          length rs = (if signals m = [] then 1 else length (signals m))
        \<and> (\<forall>t\<in>set rs. \<exists>row. t = (row, build_empty_row, True, {0 ..< NUM_COLS_PER_SIDE})
              \<and> length row = NUM_COLS_PER_SIDE))
    \<and> (\<forall>rows. compare_dbc_files old_db new_db = Inr rows \<longrightarrow>
          (\<exists>before rs after. compare_msg old_db new_db mid = Inr rs \<and> rows = before @ rs @ after))
    \<and> ((\<forall>sg\<in>set (od_values (signals m)). finite_sig sg) \<longrightarrow>
          (\<exists>rs. compare_msg old_db new_db mid = Inr rs)))
 \<and> (od_get (messages old_db) mid = None \<and> od_get (messages new_db) mid = Some m \<longrightarrow>
      categorize_msg old_db new_db mid empty_categories =
        Inr (empty_categories\<lparr>new_messages := [m],
               new_signals := map (Pair m) (od_values (signals m))\<rparr>)
    \<and> (\<forall>cats. categorize_changes old_db new_db = Inr cats \<longrightarrow>
          m \<in> set (new_messages cats)
        \<and> (\<forall>sg\<in>set (od_values (signals m)). (m, sg) \<in> set (new_signals cats)))
    \<and> (\<forall>rs. compare_msg old_db new_db mid = Inr rs \<longrightarrow>
          length rs = (if signals m = [] then 1 else length (signals m))
        \<and> (\<forall>t\<in>set rs. \<exists>row. t = (build_empty_row, row, True, {0 ..< NUM_COLS_PER_SIDE})
              \<and> length row = NUM_COLS_PER_SIDE))
    \<and> (\<forall>rows. compare_dbc_files old_db new_db = Inr rows \<longrightarrow>
          (\<exists>before rs after. compare_msg old_db new_db mid = Inr rs \<and> rows = before @ rs @ after))
    \<and> ((\<forall>sg\<in>set (od_values (signals m)). finite_sig sg) \<longrightarrow>
          (\<exists>rs. compare_msg old_db new_db mid = Inr rs)))"
proof (intro conjI impI)
  assume a: "od_get (messages old_db) mid = Some m \<and> od_get (messages new_db) mid = None"
  then have mem: "mid \<in> set (all_msg_ids old_db new_db)"
    using od_get_in_keys[of "messages old_db" mid m] by (simp add: set_all_msg_ids)
  show "categorize_msg old_db new_db mid empty_categories =
        Inr (empty_categories\<lparr>removed_messages := [m],
               removed_signals := map (Pair m) (od_values (signals m))\<rparr>)"
    using a by (simp add: categorize_msg_def empty_categories_def)
  show "\<forall>cats. categorize_changes old_db new_db = Inr cats \<longrightarrow>
          m \<in> set (removed_messages cats)
        \<and> (\<forall>sg\<in>set (od_values (signals m)). (m, sg) \<in> set (removed_signals cats))"
    using a removed_message_categories by blast
  show "\<forall>rs. compare_msg old_db new_db mid = Inr rs \<longrightarrow>
          length rs = (if signals m = [] then 1 else length (signals m))
        \<and> (\<forall>t\<in>set rs. \<exists>row. t = (row, build_empty_row, True, {0 ..< NUM_COLS_PER_SIDE})
              \<and> length row = NUM_COLS_PER_SIDE)"
    using a removed_message_rows[of m] by (simp add: compare_msg_def all_changed_def)
  show "\<forall>rows. compare_dbc_files old_db new_db = Inr rows \<longrightarrow>
          (\<exists>before rs after. compare_msg old_db new_db mid = Inr rs \<and> rows = before @ rs @ after)"
    using compare_dbc_files_contains[OF mem] by blast
  show "\<exists>rs. compare_msg old_db new_db mid = Inr rs"
    if "\<forall>sg\<in>set (od_values (signals m)). finite_sig sg"
    using a one_sided_rows_return(1)[OF that] by (simp add: compare_msg_def)
next
  assume a: "od_get (messages old_db) mid = None \<and> od_get (messages new_db) mid = Some m"
  then have mem: "mid \<in> set (all_msg_ids old_db new_db)"
    using od_get_in_keys[of "messages new_db" mid m] by (simp add: set_all_msg_ids)
  show "categorize_msg old_db new_db mid empty_categories =
        Inr (empty_categories\<lparr>new_messages := [m],
               new_signals := map (Pair m) (od_values (signals m))\<rparr>)"
    using a by (simp add: categorize_msg_def empty_categories_def)
  show "\<forall>cats. categorize_changes old_db new_db = Inr cats \<longrightarrow>
          m \<in> set (new_messages cats)
        \<and> (\<forall>sg\<in>set (od_values (signals m)). (m, sg) \<in> set (new_signals cats))"
    using a added_message_categories by blast
  show "\<forall>rs. compare_msg old_db new_db mid = Inr rs \<longrightarrow>
          length rs = (if signals m = [] then 1 else length (signals m))
        \<and> (\<forall>t\<in>set rs. \<exists>row. t = (build_empty_row, row, True, {0 ..< NUM_COLS_PER_SIDE})
              \<and> length row = NUM_COLS_PER_SIDE)"
    using a added_message_rows[of m] by (simp add: compare_msg_def all_changed_def)
  show "\<forall>rows. compare_dbc_files old_db new_db = Inr rows \<longrightarrow>
          (\<exists>before rs after. compare_msg old_db new_db mid = Inr rs \<and> rows = before @ rs @ after)"
    using compare_dbc_files_contains[OF mem] by blast
  show "\<exists>rs. compare_msg old_db new_db mid = Inr rs"
    if "\<forall>sg\<in>set (od_values (signals m)). finite_sig sg"
    using a one_sided_rows_return(2)[OF that] by (simp add: compare_msg_def)
qed

lemma ex_engine_finite: "\<forall>sg\<in>set (od_values (signals msg_engine)). finite_sig sg"
  by (simp add: msg_engine_def sig_speed_def sig_rpm_def new_Message_def new_Signal_def
      od_values_def finite_sig_def)

theorem whole_message_cascade_witness:
  "categorize_msg db_both db_status_only 256 empty_categories =
     Inr (empty_categories\<lparr>removed_messages := [msg_engine],
            removed_signals := [(msg_engine, sig_speed), (msg_engine, sig_rpm)]\<rparr>)
   \<and> (\<exists>rs. compare_msg db_both db_status_only 256 = Inr rs \<and> length rs = 2)
   \<and> categorize_msg db_status_only db_both 256 empty_categories =
     Inr (empty_categories\<lparr>new_messages := [msg_engine],
            new_signals := [(msg_engine, sig_speed), (msg_engine, sig_rpm)]\<rparr>)
   \<and> (\<exists>rs. compare_msg db_status_only db_both 256 = Inr rs \<and> length rs = 2)"
proof -
  have v: "od_values (signals msg_engine) = [sig_speed, sig_rpm]" "signals msg_engine \<noteq> []"
    "length (signals msg_engine) = 2"
    by (simp_all add: msg_engine_def new_Message_def od_values_def)
  show ?thesis
    using whole_message_cascade[of db_both 256 msg_engine db_status_only]
      whole_message_cascade[of db_status_only 256 msg_engine db_both]
      ex_lookup(2) ex_lookup(6) ex_engine_finite v
    by auto
qed

subsection \<open>Exchanging the two databases\<close>

lemma set_fromkeys_acc: "set (fromkeys_acc acc xs) = set acc \<union> set xs"
  by (induction xs arbitrary: acc) auto

lemma filter_fromkeys_acc:
  "filter P (fromkeys_acc acc xs) = fromkeys_acc (filter P acc) (filter P xs)"
  by (induction xs arbitrary: acc) auto

lemma set_fromkeys: "set (fromkeys xs) = set xs"
  by (simp add: fromkeys_def set_fromkeys_acc)

lemma filter_fromkeys: "filter P (fromkeys xs) = fromkeys (filter P xs)"
  by (simp add: fromkeys_def filter_fromkeys_acc)

lemma concat_map_filter_nonempty:
  "concat (map g xs) = concat (map g (filter (\<lambda>x. g x \<noteq> []) xs))"
  by (induction xs) auto

text \<open>A contribution that is empty on the names of one side does not depend on which
  side's names come first in \<open>all_sigs\<close>.\<close>

lemma concat_fromkeys_swap:
  assumes "\<forall>x\<in>set as. g x = []"
  shows "concat (map g (fromkeys (as @ bs))) = concat (map g (fromkeys (bs @ as)))"
proof -
  have e: "filter (\<lambda>x. g x \<noteq> []) as = []"
    using assms by (simp add: filter_empty_conv)
  have "concat (map g (fromkeys (as @ bs))) = concat (map g (fromkeys (filter (\<lambda>x. g x \<noteq> []) bs)))"
    by (subst concat_map_filter_nonempty) (simp add: filter_fromkeys e)
  also have "\<dots> = concat (map g (fromkeys (bs @ as)))"
    by (subst (2) concat_map_filter_nonempty) (simp add: filter_fromkeys e)
  finally show ?thesis .
qed

lemma cats_loop_result:
  assumes acc: "\<And>x c. body x c = (case body x empty_categories of Inl e \<Rightarrow> Inl e | Inr d \<Rightarrow> Inr (cats_append c d))"
    and "cats_loop body xs empty_categories = Inr d"
  shows "(\<forall>x\<in>set xs. \<exists>dx. body x empty_categories = Inr dx)
     \<and> new_messages d = concat (map (\<lambda>x. new_messages (projr (body x empty_categories))) xs)
     \<and> removed_messages d = concat (map (\<lambda>x. removed_messages (projr (body x empty_categories))) xs)
     \<and> modified_messages d = concat (map (\<lambda>x. modified_messages (projr (body x empty_categories))) xs)
     \<and> new_signals d = concat (map (\<lambda>x. new_signals (projr (body x empty_categories))) xs)
     \<and> removed_signals d = concat (map (\<lambda>x. removed_signals (projr (body x empty_categories))) xs)
     \<and> modified_signals d = concat (map (\<lambda>x. modified_signals (projr (body x empty_categories))) xs)"
  using assms(2)
proof (induction xs arbitrary: d)
  case Nil
  then show ?case by (auto simp: empty_categories_def)
next
  case (Cons x xs)
  from Cons.prems obtain dx where dx: "body x empty_categories = Inr dx"
      and l: "cats_loop body xs dx = Inr d"
    by (auto split: sum.splits)
  have "cats_loop body xs dx =
     (case cats_loop body xs empty_categories of Inl e \<Rightarrow> Inl e | Inr d' \<Rightarrow> Inr (cats_append dx d'))"
    by (rule cats_loop_acc) (rule acc)
  with l obtain d' where d': "cats_loop body xs empty_categories = Inr d'" and d: "d = cats_append dx d'"
    by (auto split: sum.splits)
  from Cons.IH[OF d'] show ?case
    using dx d by simp
qed

lemma cats_loop_returns:
  assumes acc: "\<And>x c. body x c = (case body x empty_categories of Inl e \<Rightarrow> Inl e | Inr d \<Rightarrow> Inr (cats_append c d))"
    and "\<forall>x\<in>set xs. \<exists>dx. body x empty_categories = Inr dx"
  shows "\<exists>d. cats_loop body xs c = Inr d"
  using assms(2)
proof (induction xs arbitrary: c)
  case Nil
  then show ?case by simp
next
  case (Cons x xs)
  then obtain dx where "body x empty_categories = Inr dx" by auto
  then have "body x c = Inr (cats_append c dx)"
    using acc[of x c] by simp
  then show ?case using Cons by simp
qed

lemma build_sig_summary_row_Inr:
  assumes "build_sig_summary_row m sg = Inr row"
  shows "length row = 12 \<and> list_all normal row \<and> summary_finite sg"
proof -
  from assms obtain mn mx sc where
    f: "format_number (PFloat (minimum sg)) = Inr mn" "format_number (PFloat (maximum sg)) = Inr mx"
       "format_number (PFloat (factor sg)) = Inr sc"
    by (auto simp: build_sig_summary_row_def split: sum.splits)
  have fin: "summary_finite sg"
    using f format_number_error unfolding summary_finite_def by fastforce
  have n: "normal mn" "normal mx" "normal sc"
    by (rule format_number_normal, rule f)+
  show ?thesis
    using assms n fin unfolding build_sig_summary_row_def f by auto
qed

lemma build_sig_summary_row_finite:
  assumes "summary_finite sg"
  shows "\<exists>row. build_sig_summary_row m sg = Inr row"
proof -
  from assms obtain mn mx sc where
    "format_number (PFloat (minimum sg)) = Inr mn" "format_number (PFloat (maximum sg)) = Inr mx"
    "format_number (PFloat (factor sg)) = Inr sc"
    unfolding summary_finite_def by (meson format_number_finite)
  then show ?thesis unfolding build_sig_summary_row_def by simp
qed

lemma categorize_sig_pair_both:
  "(\<exists>d. categorize_sig_pair old_msg new_msg (Some a) (Some b) empty_categories = Inr d)
     \<longleftrightarrow> summary_finite a \<and> summary_finite b"
proof
  assume "\<exists>d. categorize_sig_pair old_msg new_msg (Some a) (Some b) empty_categories = Inr d"
  then obtain ra rb where "build_sig_summary_row old_msg a = Inr ra" "build_sig_summary_row new_msg b = Inr rb"
    by (auto split: sum.splits)
  then show "summary_finite a \<and> summary_finite b"
    using build_sig_summary_row_Inr by blast
next
  assume fin: "summary_finite a \<and> summary_finite b"
  then obtain ra rb where r: "build_sig_summary_row old_msg a = Inr ra" "build_sig_summary_row new_msg b = Inr rb"
    using build_sig_summary_row_finite by meson
  have "length (drop 3 ra) \<le> length (drop 3 rb)" "list_all normal (drop 3 ra)" "list_all normal (drop 3 rb)"
    using build_sig_summary_row_Inr[OF r(1)] build_sig_summary_row_Inr[OF r(2)]
    by (auto simp: list_all_iff dest: in_set_dropD)
  then obtain ds where "row_diffs (drop 3 ra) (drop 3 rb) = Inr ds"
    using row_diffs_normal by blast
  then show "\<exists>d. categorize_sig_pair old_msg new_msg (Some a) (Some b) empty_categories = Inr d"
    using r by simp
qed

lemma categorize_sig_pair_returns_sym:
  "(\<exists>d. categorize_sig_pair old_msg new_msg so sn empty_categories = Inr d)
     \<longleftrightarrow> (\<exists>d. categorize_sig_pair new_msg old_msg sn so empty_categories = Inr d)"
proof (cases so; cases sn)
  fix a b assume "so = Some a" "sn = Some b"
  then show ?thesis
    using categorize_sig_pair_both[of old_msg new_msg a b] categorize_sig_pair_both[of new_msg old_msg b a]
    by auto
qed simp_all

lemma categorize_sig_pair_lists:
  assumes "categorize_sig_pair old_msg new_msg so sn empty_categories = Inr d"
  shows "new_signals d = present_only new_msg so sn \<and> removed_signals d = present_only old_msg sn so
     \<and> new_messages d = [] \<and> removed_messages d = [] \<and> modified_messages d = []"
  using assms
  by (cases so; cases sn) (auto simp: empty_categories_def split: sum.splits if_splits)

text \<open>The signal loop of a message present in both versions.\<close>

lemma sig_loop_lists:
  assumes "cats_loop (categorize_sig old_msg new_msg) names empty_categories = Inr d"
  shows "new_signals d = concat (map (\<lambda>nm. present_only new_msg
             (od_get (signals old_msg) nm) (od_get (signals new_msg) nm)) names)
     \<and> removed_signals d = concat (map (\<lambda>nm. present_only old_msg
             (od_get (signals new_msg) nm) (od_get (signals old_msg) nm)) names)
     \<and> new_messages d = [] \<and> removed_messages d = [] \<and> modified_messages d = []"
proof -
  let ?b = "categorize_sig old_msg new_msg"
  note r = cats_loop_result[of ?b names d, OF categorize_sig_acc assms]
  have each: "new_signals (projr (?b nm empty_categories)) =
        present_only new_msg (od_get (signals old_msg) nm) (od_get (signals new_msg) nm)
      \<and> removed_signals (projr (?b nm empty_categories)) =
        present_only old_msg (od_get (signals new_msg) nm) (od_get (signals old_msg) nm)
      \<and> new_messages (projr (?b nm empty_categories)) = []
      \<and> removed_messages (projr (?b nm empty_categories)) = []
      \<and> modified_messages (projr (?b nm empty_categories)) = []"
    if "nm \<in> set names" for nm
  proof -
    from r that obtain dx where dx: "?b nm empty_categories = Inr dx" by blast
    then show ?thesis
      using categorize_sig_pair_lists[of old_msg new_msg _ _ dx] by (simp add: categorize_sig_def)
  qed
  show ?thesis
    using r each by (simp cong: map_cong)
qed

lemma build_msg_summary_row_plain: "length (build_msg_summary_row m) = 8 \<and> list_all plain (build_msg_summary_row m)"
  by (simp add: build_msg_summary_row_def)

lemma msg_summary_row_diffs:
  "row_diffs (build_msg_summary_row a) (build_msg_summary_row b) =
     Inr (filter (\<lambda>i. build_msg_summary_row a ! i \<noteq> build_msg_summary_row b ! i) [0 ..< 8])"
proof -
  let ?ra = "build_msg_summary_row a" and ?rb = "build_msg_summary_row b"
  have p: "plain (?ra ! i) \<and> plain (?rb ! i)" if "i < 8" for i
    using build_msg_summary_row_plain[of a] build_msg_summary_row_plain[of b] that
    by (simp add: list_all_length)
  have n: "list_all normal ?ra" "list_all normal ?rb"
    using build_msg_summary_row_plain[of a] build_msg_summary_row_plain[of b]
    by (auto simp: list_all_iff intro: plain_normal)
  have "row_diffs ?ra ?rb = Inr (filter (\<lambda>i. py_ne (?ra ! i) (?rb ! i)) [0 ..< length ?ra])"
    using n by (intro row_diffs_normal) (simp_all add: build_msg_summary_row_plain)
  also have "filter (\<lambda>i. py_ne (?ra ! i) (?rb ! i)) [0 ..< length ?ra]
      = filter (\<lambda>i. ?ra ! i \<noteq> ?rb ! i) [0 ..< 8]"
    using p by (auto simp: build_msg_summary_row_plain py_ne_plain intro!: filter_cong)
  finally show ?thesis .
qed

text \<open>A message present in both versions: the contribution of its iteration.\<close>

lemma categorize_pair_both:
  "categorize_pair (Some old_msg) (Some new_msg) empty_categories =
     (case cats_loop (categorize_sig old_msg new_msg)
             (fromkeys (od_keys (signals old_msg) @ od_keys (signals new_msg))) empty_categories of
        Inl e \<Rightarrow> Inl e
      | Inr d \<Rightarrow> Inr (cats_append
          (if filter (\<lambda>i. build_msg_summary_row old_msg ! i \<noteq> build_msg_summary_row new_msg ! i) [0 ..< 8] \<noteq> []
           then empty_categories\<lparr>modified_messages := [(old_msg, new_msg,
                  filter (\<lambda>i. build_msg_summary_row old_msg ! i \<noteq> build_msg_summary_row new_msg ! i) [0 ..< 8])]\<rparr>
           else empty_categories) d))"
proof -
  let ?ds = "filter (\<lambda>i. build_msg_summary_row old_msg ! i \<noteq> build_msg_summary_row new_msg ! i) [0 ..< 8]"
  let ?c0 = "if ?ds \<noteq> [] then empty_categories\<lparr>modified_messages := [(old_msg, new_msg, ?ds)]\<rparr>
             else empty_categories"
  let ?names = "fromkeys (od_keys (signals old_msg) @ od_keys (signals new_msg))"
  have "categorize_pair (Some old_msg) (Some new_msg) empty_categories =
      cats_loop (categorize_sig old_msg new_msg) ?names ?c0"
    by (simp add: msg_summary_row_diffs empty_categories_def)
  also have "\<dots> = (case cats_loop (categorize_sig old_msg new_msg) ?names empty_categories of
        Inl e \<Rightarrow> Inl e | Inr d \<Rightarrow> Inr (cats_append ?c0 d))"
    by (rule cats_loop_acc) (rule categorize_sig_acc)
  finally show ?thesis .
qed

lemma categorize_pair_both_lists:
  assumes "categorize_pair (Some old_msg) (Some new_msg) empty_categories = Inr d"
  shows "new_signals d = concat (map (\<lambda>nm. present_only new_msg
             (od_get (signals old_msg) nm) (od_get (signals new_msg) nm))
             (fromkeys (od_keys (signals old_msg) @ od_keys (signals new_msg))))
     \<and> removed_signals d = concat (map (\<lambda>nm. present_only old_msg
             (od_get (signals new_msg) nm) (od_get (signals old_msg) nm))
             (fromkeys (od_keys (signals old_msg) @ od_keys (signals new_msg))))
     \<and> new_messages d = [] \<and> removed_messages d = []"
proof -
  from assms obtain d' where
    l: "cats_loop (categorize_sig old_msg new_msg)
          (fromkeys (od_keys (signals old_msg) @ od_keys (signals new_msg))) empty_categories = Inr d'"
    and d: "d = cats_append
          (if filter (\<lambda>i. build_msg_summary_row old_msg ! i \<noteq> build_msg_summary_row new_msg ! i) [0 ..< 8] \<noteq> []
           then empty_categories\<lparr>modified_messages := [(old_msg, new_msg,
                  filter (\<lambda>i. build_msg_summary_row old_msg ! i \<noteq> build_msg_summary_row new_msg ! i) [0 ..< 8])]\<rparr>
           else empty_categories) d'"
    unfolding categorize_pair_both by (auto split: sum.splits)
  show ?thesis
    using sig_loop_lists[OF l] unfolding d by (simp add: empty_categories_def)
qed

lemma od_get_None_iff: "od_get d k = None \<longleftrightarrow> k \<notin> set (od_keys d)"
  by (simp add: od_get_def od_keys_def map_of_eq_None_iff)

lemma present_only_swap:
  "concat (map (\<lambda>nm. present_only m (od_get a nm) (od_get b nm)) (fromkeys (od_keys a @ od_keys b)))
 = concat (map (\<lambda>nm. present_only m (od_get a nm) (od_get b nm)) (fromkeys (od_keys b @ od_keys a)))"
proof (rule concat_fromkeys_swap)
  show "\<forall>x\<in>set (od_keys a). present_only m (od_get a x) (od_get b x) = []"
  proof
    fix x assume "x \<in> set (od_keys a)"
    then obtain v where "od_get a x = Some v"
      using od_get_None_iff[of a x] by (cases "od_get a x") auto
    then show "present_only m (od_get a x) (od_get b x) = []" by simp
  qed
qed

lemma categorize_pair_both_returns:
  "(\<exists>d. categorize_pair (Some old_msg) (Some new_msg) empty_categories = Inr d)
     \<longleftrightarrow> (\<forall>nm\<in>set (od_keys (signals old_msg)) \<union> set (od_keys (signals new_msg)).
            \<exists>d. categorize_sig old_msg new_msg nm empty_categories = Inr d)"
proof -
  let ?names = "fromkeys (od_keys (signals old_msg) @ od_keys (signals new_msg))"
  have s: "set ?names = set (od_keys (signals old_msg)) \<union> set (od_keys (signals new_msg))"
    by (simp add: set_fromkeys)
  have "(\<exists>d. cats_loop (categorize_sig old_msg new_msg) ?names empty_categories = Inr d)
     \<longleftrightarrow> (\<forall>nm\<in>set ?names. \<exists>d. categorize_sig old_msg new_msg nm empty_categories = Inr d)"
    using cats_loop_result[of "categorize_sig old_msg new_msg" ?names, OF categorize_sig_acc]
      cats_loop_returns[of "categorize_sig old_msg new_msg" ?names empty_categories, OF categorize_sig_acc]
    by blast
  then show ?thesis
    unfolding categorize_pair_both s by (auto split: sum.splits)
qed

lemma categorize_pair_returns_sym:
  "(\<exists>d. categorize_pair a b empty_categories = Inr d) \<longleftrightarrow> (\<exists>d. categorize_pair b a empty_categories = Inr d)"
proof (cases a; cases b)
  fix old_msg new_msg assume ab: "a = Some old_msg" "b = Some new_msg"
  have "(\<exists>d. categorize_sig old_msg new_msg nm empty_categories = Inr d)
      \<longleftrightarrow> (\<exists>d. categorize_sig new_msg old_msg nm empty_categories = Inr d)" for nm
    unfolding categorize_sig_def by (rule categorize_sig_pair_returns_sym)
  then show ?thesis
    unfolding ab categorize_pair_both_returns by (simp add: Un_commute)
qed simp_all

lemma categorize_pair_sym:
  assumes "categorize_pair a b empty_categories = Inr d1" "categorize_pair b a empty_categories = Inr d2"
  shows "new_messages d1 = removed_messages d2 \<and> new_signals d1 = removed_signals d2"
proof (cases a; cases b)
  fix old_msg new_msg assume ab: "a = Some old_msg" "b = Some new_msg"
  show ?thesis
    using categorize_pair_both_lists[of old_msg new_msg d1] categorize_pair_both_lists[of new_msg old_msg d2]
      assms present_only_swap[of new_msg "signals old_msg" "signals new_msg"]
    unfolding ab by simp
qed (use assms in \<open>auto simp: empty_categories_def\<close>)

lemma all_msg_ids_commute: "all_msg_ids a b = all_msg_ids b a"
  unfolding all_msg_ids_def by (rule sort_remdups_cong) auto

text \<open>
  Claim C3. For any two databases, \<open>categorize_changes\<close> returns in one direction exactly
  when it returns in the other, and then the new messages of one direction are the
  removed messages of the other, entry for entry and in the same order; likewise for
  the new and the removed signals.
\<close>

theorem diff_symmetry:
  "((\<exists>c. categorize_changes a b = Inr c) \<longleftrightarrow> (\<exists>c. categorize_changes b a = Inr c))
   \<and> (\<forall>c1 c2. categorize_changes a b = Inr c1 \<and> categorize_changes b a = Inr c2 \<longrightarrow>
         new_messages c1 = removed_messages c2 \<and> new_signals c1 = removed_signals c2)"
proof -
  let ?ids = "all_msg_ids a b"
  let ?f = "categorize_msg a b" and ?g = "categorize_msg b a"
  have ab: "categorize_changes a b = cats_loop ?f ?ids empty_categories"
    by (simp add: categorize_changes_def)
  have ba: "categorize_changes b a = cats_loop ?g ?ids empty_categories"
    by (simp add: categorize_changes_def all_msg_ids_commute[of b a])
  have ret: "(\<exists>d. ?f mid empty_categories = Inr d) \<longleftrightarrow> (\<exists>d. ?g mid empty_categories = Inr d)" for mid
    unfolding categorize_msg_def by (rule categorize_pair_returns_sym)
  have r1: "(\<exists>c. cats_loop ?f ?ids empty_categories = Inr c)
      \<longleftrightarrow> (\<forall>mid\<in>set ?ids. \<exists>d. ?f mid empty_categories = Inr d)"
    using cats_loop_result[of ?f ?ids, OF categorize_msg_acc]
      cats_loop_returns[of ?f ?ids empty_categories, OF categorize_msg_acc]
    by blast
  have r2: "(\<exists>c. cats_loop ?g ?ids empty_categories = Inr c)
      \<longleftrightarrow> (\<forall>mid\<in>set ?ids. \<exists>d. ?g mid empty_categories = Inr d)"
    using cats_loop_result[of ?g ?ids, OF categorize_msg_acc]
      cats_loop_returns[of ?g ?ids empty_categories, OF categorize_msg_acc]
    by blast
  have returns: "(\<exists>c. categorize_changes a b = Inr c) \<longleftrightarrow> (\<exists>c. categorize_changes b a = Inr c)"
    unfolding ab ba r1 r2 using ret by simp
  have lists: "new_messages c1 = removed_messages c2 \<and> new_signals c1 = removed_signals c2"
    if c: "categorize_changes a b = Inr c1" "categorize_changes b a = Inr c2" for c1 c2
  proof -
    note l1 = cats_loop_result[of ?f ?ids c1, OF categorize_msg_acc c(1)[unfolded ab]]
    note l2 = cats_loop_result[of ?g ?ids c2, OF categorize_msg_acc c(2)[unfolded ba]]
    have each: "new_messages (projr (?f mid empty_categories)) = removed_messages (projr (?g mid empty_categories))
        \<and> new_signals (projr (?f mid empty_categories)) = removed_signals (projr (?g mid empty_categories))"
      if "mid \<in> set ?ids" for mid
    proof -
      from l1 l2 that obtain d1 d2 where "?f mid empty_categories = Inr d1" "?g mid empty_categories = Inr d2"
        by blast
      then show ?thesis
        using categorize_pair_sym[of "od_get (messages a) mid" "od_get (messages b) mid" d1 d2]
        by (simp add: categorize_msg_def)
    qed
    show ?thesis
      using l1 l2 each by (simp cong: map_cong)
  qed
  show ?thesis using returns lists by blast
qed

lemma ex_categorize_removed:
  "categorize_changes db_both db_status_only =
     Inr (empty_categories\<lparr>removed_messages := [msg_engine],
            removed_signals := [(msg_engine, sig_speed), (msg_engine, sig_rpm)]\<rparr>)"
proof -
  have ids: "all_msg_ids db_both db_status_only = [256, 512]"
    by (simp add: all_msg_ids_def db_both_def db_status_only_def new_DBCDatabase_def od_keys_def)
  have s: "signals msg_status = []"
    by (simp add: msg_status_def new_Message_def)
  have m: "categorize_pair (Some msg_status) (Some msg_status) c = Inr c" for c
    by (simp add: msg_summary_row_diffs s fromkeys_def od_keys_def)
  have s1: "categorize_msg db_both db_status_only 256 c =
      Inr (c\<lparr>removed_messages := removed_messages c @ [msg_engine],
             removed_signals := removed_signals c @ [(msg_engine, sig_speed), (msg_engine, sig_rpm)]\<rparr>)" for c
    by (simp add: categorize_msg_def ex_lookup) (simp add: msg_engine_def new_Message_def od_values_def)
  have s2: "categorize_msg db_both db_status_only 512 c = Inr c" for c
    using m by (simp only: categorize_msg_def ex_lookup)
  show ?thesis
    unfolding categorize_changes_def ids
    by (simp add: s1 s2 empty_categories_def)
qed

lemma ex_categorize_added:
  "categorize_changes db_status_only db_both =
     Inr (empty_categories\<lparr>new_messages := [msg_engine],
            new_signals := [(msg_engine, sig_speed), (msg_engine, sig_rpm)]\<rparr>)"
proof -
  have ids: "all_msg_ids db_status_only db_both = [256, 512]"
    by (simp add: all_msg_ids_def db_both_def db_status_only_def new_DBCDatabase_def od_keys_def)
  have s: "signals msg_status = []"
    by (simp add: msg_status_def new_Message_def)
  have m: "categorize_pair (Some msg_status) (Some msg_status) c = Inr c" for c
    by (simp add: msg_summary_row_diffs s fromkeys_def od_keys_def)
  have s1: "categorize_msg db_status_only db_both 256 c =
      Inr (c\<lparr>new_messages := new_messages c @ [msg_engine],
             new_signals := new_signals c @ [(msg_engine, sig_speed), (msg_engine, sig_rpm)]\<rparr>)" for c
    by (simp add: categorize_msg_def ex_lookup) (simp add: msg_engine_def new_Message_def od_values_def)
  have s2: "categorize_msg db_status_only db_both 512 c = Inr c" for c
    using m by (simp only: categorize_msg_def ex_lookup)
  show ?thesis
    unfolding categorize_changes_def ids
    by (simp add: s1 s2 empty_categories_def)
qed

theorem diff_symmetry_witness:
  "(\<exists>c1 c2. categorize_changes db_status_only db_both = Inr c1
      \<and> categorize_changes db_both db_status_only = Inr c2
      \<and> new_messages c1 = removed_messages c2 \<and> new_signals c1 = removed_signals c2
      \<and> new_messages c1 = [msg_engine])"
  using diff_symmetry[of db_status_only db_both] ex_categorize_removed ex_categorize_added
  by simp

subsection \<open>What the categorized diff calls modified\<close>

lemma py_ne_normal: "normal a \<Longrightarrow> normal b \<Longrightarrow> py_ne a b = (a \<noteq> b)"
proof (cases a; cases b)
  fix f g assume ab: "a = PFloat f" "b = PFloat g" and n: "normal a" "normal b"
  then obtain q r where "f = Finite q" "g = Finite r"
    by (cases f; cases g) (auto simp: normal_def)
  then show ?thesis using ab by simp
next
  fix i g assume ab: "a = PInt i" "b = PFloat g" and n: "normal a" "normal b"
  then obtain r where r: "g = Finite r"
    by (cases g) (auto simp: normal_def)
  then have "r \<noteq> of_int i"
    using n(2) ab(2) by (auto simp: normal_def split: if_splits)
  then show ?thesis using ab r by auto
next
  fix f i assume ab: "a = PFloat f" "b = PInt i" and n: "normal a" "normal b"
  then obtain r where r: "f = Finite r"
    by (cases f) (auto simp: normal_def)
  then have "r \<noteq> of_int i"
    using n(1) ab(1) by (auto simp: normal_def split: if_splits)
  then show ?thesis using ab r by auto
qed simp_all


lemma sig_summary_row_diffs:
  assumes "build_sig_summary_row a sa = Inr ra" "build_sig_summary_row b sb = Inr rb"
  shows "row_diffs (drop 3 ra) (drop 3 rb) =
     Inr (filter (\<lambda>i. drop 3 ra ! i \<noteq> drop 3 rb ! i) [0 ..< 9])"
proof -
  note a = build_sig_summary_row_Inr[OF assms(1)] and b = build_sig_summary_row_Inr[OF assms(2)]
  have n: "list_all normal (drop 3 ra)" "list_all normal (drop 3 rb)"
    using a b by (auto simp: list_all_iff dest: in_set_dropD)
  have l: "length (drop 3 ra) = 9" "length (drop 3 rb) = 9"
    using a b by simp_all
  have "row_diffs (drop 3 ra) (drop 3 rb) =
     Inr (filter (\<lambda>i. py_ne (drop 3 ra ! i) (drop 3 rb ! i)) [0 ..< length (drop 3 ra)])"
    using n l by (intro row_diffs_normal) simp_all
  also have "filter (\<lambda>i. py_ne (drop 3 ra ! i) (drop 3 rb ! i)) [0 ..< length (drop 3 ra)]
      = filter (\<lambda>i. drop 3 ra ! i \<noteq> drop 3 rb ! i) [0 ..< 9]"
    unfolding l using n l by (intro filter_cong refl py_ne_normal) (simp_all add: list_all_length)
  finally show ?thesis .
qed









lemma unchanged_sig_pair:
  assumes "build_sig_summary_row a sa = Inr ra" "build_sig_summary_row b sb = Inr rb"
    "drop 3 ra = drop 3 rb"
  shows "categorize_sig_pair a b (Some sa) (Some sb) c = Inr c"
  using assms sig_summary_row_diffs[OF assms(1,2)] by simp






subsection \<open>Comparing a database with itself\<close>

lemmas matches_defs = msg_int_matches_def msg_str_matches_def sig_int_matches_def
  sig_str_matches_def val_matches_def cm_sg_matches_def cm_bo_matches_def map_filter_simps

lemma check_row_diff_same:
  assumes "list_all normal row"
  shows "check_row_diff row row = Inr (False, {})"
proof -
  have "{i. i < length row \<and> py_ne (row ! i) (row ! i)} = {}"
    using assms by (auto simp: list_all_length py_ne_normal_refl)
  then show ?thesis
    using check_row_diff_normal[of row row] assms by simp
qed

lemma rows_loop_all:
  assumes "\<forall>x\<in>set xs. \<exists>rs. body x = Inr rs \<and> (\<forall>t\<in>set rs. P t)" "\<forall>t\<in>set rows. P t"
  shows "\<exists>r. rows_loop body xs rows = Inr r \<and> (\<forall>t\<in>set r. P t)"
  using assms
proof (induction xs arbitrary: rows)
  case Nil
  then show ?case by simp
next
  case (Cons x xs)
  then obtain rs where rs: "body x = Inr rs" "\<forall>t\<in>set rs. P t" by auto
  have "\<exists>r. rows_loop body xs (rows @ rs) = Inr r \<and> (\<forall>t\<in>set r. P t)"
    using Cons rs by (intro Cons.IH) auto
  then show ?case using rs by simp
qed

lemma od_get_in_values: "od_get d k = Some v \<Longrightarrow> v \<in> set (od_values d)"
  unfolding od_get_def od_values_def by (metis map_of_SomeD snd_conv image_eqI set_map)

lemma compare_pair_same:
  assumes "\<forall>sg\<in>set (od_values (signals m)). finite_sig sg"
  shows "\<exists>rows. compare_pair (Some m) (Some m) = Inr rows
     \<and> (\<forall>t\<in>set rows. \<exists>row. t = (row, row, False, {}))"
proof (cases "fromkeys (od_keys (signals m) @ od_keys (signals m)) = []")
  case True
  then show ?thesis
    by (simp add: check_row_diff_same)
next
  case False
  have "\<exists>rs. compare_sig m m nm = Inr rs \<and> (\<forall>t\<in>set rs. \<exists>row. t = (row, row, False, {}))" for nm
  proof (cases "od_get (signals m) nm")
    case None
    then show ?thesis by (simp add: compare_sig_def)
  next
    case (Some sg)
    then have "finite_sig sg" using assms od_get_in_values by fastforce
    then obtain row where row: "build_signal_row m sg = Inr row"
      using build_signal_row_finite by blast
    then have "check_row_diff row row = Inr (False, {})"
      using build_signal_row_Inr check_row_diff_same by blast
    then show ?thesis using Some row by (simp add: compare_sig_def)
  qed
  then have "\<exists>r. rows_loop (compare_sig m m) (fromkeys (od_keys (signals m) @ od_keys (signals m))) [] = Inr r
      \<and> (\<forall>t\<in>set r. \<exists>row. t = (row, row, False, {}))"
    by (intro rows_loop_all) auto
  then show ?thesis using False by simp
qed

lemma cats_loop_unchanged:
  assumes "\<forall>x\<in>set xs. \<forall>c. body x c = Inr c"
  shows "cats_loop body xs c = Inr c"
  using assms by (induction xs) simp_all

lemma categorize_pair_same:
  assumes "\<forall>sg\<in>set (od_values (signals m)). summary_finite sg"
  shows "categorize_pair (Some m) (Some m) c = Inr c"
proof -
  have "categorize_sig m m nm c' = Inr c'" for nm c'
  proof (cases "od_get (signals m) nm")
    case None
    then show ?thesis by (simp add: categorize_sig_def)
  next
    case (Some sg)
    then have "summary_finite sg" using assms od_get_in_values by fastforce
    then obtain row where row: "build_sig_summary_row m sg = Inr row"
      using build_sig_summary_row_finite by blast
    show ?thesis
      using Some unchanged_sig_pair[OF row row] by (simp add: categorize_sig_def)
  qed
  then have "cats_loop (categorize_sig m m) names c' = Inr c'" for names c'
    by (intro cats_loop_unchanged) simp
  then show ?thesis
    by (simp add: msg_summary_row_diffs)
qed

text \<open>When the numeric fields of every signal are finite, comparing a database with
  itself yields six empty lists and rows without a difference.\<close>

lemma self_diff_finite:
  assumes "\<forall>m\<in>set (od_values (messages a)). \<forall>sg\<in>set (od_values (signals m)). finite_sig sg"
  shows "categorize_changes a a = Inr empty_categories
     \<and> (\<exists>rows. compare_dbc_files a a = Inr rows \<and> (\<forall>t\<in>set rows. \<exists>row. t = (row, row, False, {})))"
proof -
  have present: "\<exists>m. od_get (messages a) mid = Some m" if "mid \<in> set (all_msg_ids a a)" for mid
    using that od_get_None_iff[of "messages a" mid] by (cases "od_get (messages a) mid") (auto simp: set_all_msg_ids)
  have fin: "\<forall>sg\<in>set (od_values (signals m)). finite_sig sg" if "od_get (messages a) mid = Some m" for mid m
    using assms od_get_in_values[OF that] by blast
  have sfin: "\<forall>sg\<in>set (od_values (signals m)). summary_finite sg" if "od_get (messages a) mid = Some m" for mid m
    using fin[OF that] by (simp add: finite_sig_def summary_finite_def)
  have "categorize_msg a a mid c = Inr c" if "mid \<in> set (all_msg_ids a a)" for mid c
    using present[OF that] sfin categorize_pair_same by (auto simp: categorize_msg_def)
  then have c: "categorize_changes a a = Inr empty_categories"
    unfolding categorize_changes_def by (intro cats_loop_unchanged) simp
  have "\<exists>rs. compare_msg a a mid = Inr rs \<and> (\<forall>t\<in>set rs. \<exists>row. t = (row, row, False, {}))"
    if "mid \<in> set (all_msg_ids a a)" for mid
    using present[OF that] fin compare_pair_same by (auto simp: compare_msg_def)
  then have "\<exists>r. rows_loop (compare_msg a a) (all_msg_ids a a) [] = Inr r
      \<and> (\<forall>t\<in>set r. \<exists>row. t = (row, row, False, {}))"
    by (intro rows_loop_all) auto
  then show ?thesis using c by (simp add: compare_dbc_files_def)
qed

text \<open>
  Claim C4. The claim holds for the databases of \<open>self_diff_finite\<close>, and fails on a
  database that holds an infinite bound: for the document \<open>doc_unbounded\<close>, whose signal
  has the range \<open>[0|inf]\<close>, \<open>parse_dbc\<close> returns \<open>db_unbounded\<close>, and comparing that database
  with itself raises OverflowError in both \<open>compare_dbc_files\<close> and \<open>categorize_changes\<close>
  (\<open>format_number\<close> evaluates \<open>int(val)\<close> on the infinity), so no list and no row is
  produced.
\<close>

theorem self_diff_unbounded_raises:
  "parse_dbc doc_unbounded = Inr db_unbounded
   \<and> compare_dbc_files db_unbounded db_unbounded = Inl OverflowError
   \<and> categorize_changes db_unbounded db_unbounded = Inl OverflowError"
proof -
  have f: "py_float ''1'' = Some (Finite 1)" "py_float ''0'' = Some (Finite 0)" "py_float ''inf'' = Some PInf"
    by (simp_all add: py_float_def float_strip_def is_float_space_def lower_def float_number_def is_digit_def
        digit_val_def exponent_def nat_of_digits_def scale10_def)
  have sg: "parse_signal sm_unbounded = Inr sig_unbounded"
    by (simp add: parse_signal_def sm_unbounded_def f sig_unbounded_def new_Signal_def py_strip_def is_space_def)
  have nm: "sg_name sig_unbounded = ''Speed''"
    by (simp add: sig_unbounded_def new_Signal_def)
  have ms: "parse_messages doc_unbounded [] = Inr [(256, msg_unbounded)]"
    by (simp add: doc_unbounded_def sg nm msg_unbounded_def)
  have p: "parse_dbc doc_unbounded = Inr db_unbounded"
    unfolding parse_dbc_def ms
    by (simp add: doc_unbounded_def db_unbounded_def
        apply_msg_attrs_def apply_sig_attrs_def apply_val_cm_def parse_msg_int_attr_def
        parse_sig_int_attr_def parse_sig_str_attr_def new_DBCDatabase_def matches_defs)
  have ids: "all_msg_ids db_unbounded db_unbounded = [256]"
    by (simp add: all_msg_ids_def db_unbounded_def new_DBCDatabase_def od_keys_def)
  have g: "od_get (messages db_unbounded) 256 = Some msg_unbounded"
    by (simp add: db_unbounded_def new_DBCDatabase_def od_get_def)
  have names: "fromkeys (od_keys (signals msg_unbounded) @ od_keys (signals msg_unbounded)) = [''Speed'']"
    by (simp add: msg_unbounded_def new_Message_def od_keys_def fromkeys_def)
  have look: "od_get (signals msg_unbounded) ''Speed'' = Some sig_unbounded"
    by (simp add: msg_unbounded_def new_Message_def od_get_def)
  have r: "build_signal_row msg_unbounded sig_unbounded = Inl OverflowError"
    by (simp add: build_signal_row_def sig_unbounded_def new_Signal_def)
  have s: "build_sig_summary_row msg_unbounded sig_unbounded = Inl OverflowError"
    by (simp add: build_sig_summary_row_def sig_unbounded_def new_Signal_def)
  have c: "compare_dbc_files db_unbounded db_unbounded = Inl OverflowError"
    unfolding compare_dbc_files_def ids
    by (simp add: compare_msg_def g names compare_sig_def look r)
  have "categorize_pair (Some msg_unbounded) (Some msg_unbounded) empty_categories = Inl OverflowError"
    unfolding categorize_pair_both names by (simp add: categorize_sig_def look s)
  then have d: "categorize_changes db_unbounded db_unbounded = Inl OverflowError"
    unfolding categorize_changes_def ids by (simp add: categorize_msg_def g)
  show ?thesis using p c d by simp
qed

section \<open>Properties of the parser\<close>

subsection \<open>Dictionaries\<close>

lemma od_keys_od_set:
  "od_keys (od_set k v d) = (if k \<in> set (od_keys d) then od_keys d else od_keys d @ [k])"
  by (induction d) (force simp: od_keys_def)+

lemma od_get_od_set: "od_get (od_set k v d) k' = (if k' = k then Some v else od_get d k')"
  by (induction d) (auto simp: od_get_def)

lemma distinct_od_set: "distinct (od_keys d) \<Longrightarrow> distinct (od_keys (od_set k v d))"
  by (simp add: od_keys_od_set)

lemma od_keys_set_at [simp]: "od_keys (set_at k f d) = od_keys d"
  by (induction d) (auto simp: od_keys_def set_at_def)

lemma od_set_present:
  "distinct (od_keys d) \<Longrightarrow> od_get d k = Some x \<Longrightarrow> od_set k (f x) d = set_at k f d"
proof (induction d)
  case Nil
  then show ?case by (simp add: od_get_def)
next
  case (Cons a d)
  obtain i y where a: "a = (i, y)" by (cases a)
  show ?case
  proof (cases "i = k")
    case True
    then have "\<forall>(j, z)\<in>set d. j \<noteq> k"
      using Cons.prems(1) a by (force simp: od_keys_def)
    then have "map (\<lambda>(i, x). (i, if i = k then f x else x)) d = d"
      by (induction d) auto
    then show ?thesis
      using True a Cons.prems(2) by (simp add: set_at_def od_get_def)
  next
    case False
    then show ?thesis
      using Cons a by (simp add: set_at_def od_get_def od_keys_def)
  qed
qed

lemma set_at_absent: "od_get d k = None \<Longrightarrow> set_at k f d = d"
proof -
  assume "od_get d k = None"
  then have "\<forall>(j, z)\<in>set d. j \<noteq> k"
    by (force simp: od_get_def map_of_eq_None_iff)
  then show ?thesis
    unfolding set_at_def by (induction d) auto
qed

lemma step_set_at:
  "distinct (od_keys d) \<Longrightarrow>
     (case od_get d k of None \<Rightarrow> d | Some x \<Rightarrow> od_set k (f x) d) = set_at k f d"
  by (cases "od_get d k") (simp_all add: set_at_absent od_set_present)

lemma last_val_Cons:
  "last_val ((k, v) # items) i = (case last_val items i of Some w \<Rightarrow> Some w | None \<Rightarrow> if i = k then Some v else None)"
  by (simp add: last_val_def map_add_def split: option.splits)

lemma last_val_Nil [simp]: "last_val [] i = None"
  by (simp add: last_val_def)

lemma last_val_append:
  "last_val (xs @ ys) i = (case last_val ys i of Some w \<Rightarrow> Some w | None \<Rightarrow> last_val xs i)"
  by (simp add: last_val_def map_add_def split: option.splits)

text \<open>The message-level overlay loop, entity by entity.\<close>

lemma apply_msg_attr_map:
  assumes "distinct (od_keys ms)" "\<And>v w m. upd v (upd w m) = upd v m"
  shows "apply_msg_attr upd items ms = map (\<lambda>(i, m). (i, ov upd (last_val items i) m)) ms"
  using assms(1)
proof (induction items arbitrary: ms)
  case Nil
  then show ?case by simp
next
  case (Cons a items)
  obtain k v where a: "a = (k, v)" by (cases a)
  have "apply_msg_attr upd (a # items) ms = apply_msg_attr upd items (set_at k (upd v) ms)"
    using Cons.prems a by (simp add: step_set_at)
  also have "\<dots> = map (\<lambda>(i, m). (i, ov upd (last_val items i) m)) (set_at k (upd v) ms)"
    using Cons.prems by (intro Cons.IH) simp
  also have "\<dots> = map (\<lambda>(i, m). (i, ov upd (last_val (a # items) i) m)) ms"
    unfolding set_at_def a
    by (auto simp: last_val_Cons assms(2) split: option.splits)
  finally show ?case .
qed


lemma set_at_same:
  "distinct (od_keys d) \<Longrightarrow> od_get d k = Some x \<Longrightarrow> f x = x \<Longrightarrow> set_at k f d = d"
proof -
  assume d: "distinct (od_keys d)" and g: "od_get d k = Some x" and f: "f x = x"
  have "\<forall>(j, z)\<in>set d. j = k \<longrightarrow> z = x"
    using d g by (auto simp: od_get_def od_keys_def dest: map_of_SomeD eq_key_imp_eq_value)
  then show ?thesis
    unfolding set_at_def using f by (induction d) auto
qed

lemma wf_msgs_sigs:
  "wf_msgs ms \<Longrightarrow> od_get ms i = Some m \<Longrightarrow> distinct (od_keys (signals m))"
  by (auto simp: wf_msgs_def od_get_def list_all_iff dest!: map_of_SomeD)

lemma sig_step_set_at:
  assumes "wf_msgs ms"
  shows "(case od_get ms i of None \<Rightarrow> ms
          | Some m \<Rightarrow> (case od_get (signals m) nm of None \<Rightarrow> ms
             | Some sg \<Rightarrow> od_set i (m\<lparr>signals := od_set nm (f sg) (signals m)\<rparr>) ms))
         = set_at i (\<lambda>m. m\<lparr>signals := set_at nm f (signals m)\<rparr>) ms"
proof (cases "od_get ms i")
  case None
  then show ?thesis by (simp add: set_at_absent)
next
  case (Some m)
  have d: "distinct (od_keys ms)" using assms by (simp add: wf_msgs_def)
  have ds: "distinct (od_keys (signals m))" using assms Some by (rule wf_msgs_sigs)
  show ?thesis
  proof (cases "od_get (signals m) nm")
    case None
    have "set_at i (\<lambda>m. m\<lparr>signals := set_at nm f (signals m)\<rparr>) ms = ms"
      using d Some by (rule set_at_same) (simp add: set_at_absent [OF None])
    then show ?thesis using Some None by simp
  next
    case (Some sg)
    have "od_set i (m\<lparr>signals := od_set nm (f sg) (signals m)\<rparr>) ms
        = od_set i (m\<lparr>signals := set_at nm f (signals m)\<rparr>) ms"
      by (simp add: od_set_present [OF ds Some])
    also have "\<dots> = set_at i (\<lambda>m. m\<lparr>signals := set_at nm f (signals m)\<rparr>) ms"
      using d \<open>od_get ms i = Some m\<close> by (rule od_set_present)
    finally show ?thesis using Some \<open>od_get ms i = Some m\<close> by simp
  qed
qed

lemma wf_msgs_map:
  assumes "wf_msgs ms" "\<And>i m. od_keys (signals (g i m)) = od_keys (signals m)"
  shows "wf_msgs (map (\<lambda>(i, m). (i, g i m)) ms)"
proof -
  have "od_keys (map (\<lambda>(i, m). (i, g i m)) ms) = od_keys ms"
    by (induction ms) (auto simp: od_keys_def)
  then show ?thesis
    using assms by (auto simp: wf_msgs_def list_all_iff)
qed

lemma od_keys_map_vals [simp]: "od_keys (map (\<lambda>(i, x). (i, g i x)) d) = od_keys d"
  by (induction d) (auto simp: od_keys_def)

lemma wf_msgs_set_at_sig:
  "wf_msgs ms \<Longrightarrow> wf_msgs (set_at i (\<lambda>m. m\<lparr>signals := set_at nm f (signals m)\<rparr>) ms)"
  unfolding set_at_def [of i]
  by (rule wf_msgs_map) auto

lemma sig_map_step_eq:
  assumes "\<And>v w sg. upd v (upd w sg) = upd v sg"
  shows "map (\<lambda>(n, sg). (n, ov upd (last_val (((i, nm), v) # items) (i, n)) sg)) sigs
       = map (\<lambda>(n, sg). (n, ov upd (last_val items (i, n)) sg)) (set_at nm (upd v) sigs)"
  unfolding set_at_def
  by (induction sigs) (auto simp: last_val_Cons assms split: option.splits)

lemma sig_map_step_ne:
  "j \<noteq> i \<Longrightarrow>
     map (\<lambda>(n, sg). (n, ov upd (last_val (((i, nm), v) # items) (j, n)) sg)) sigs
   = map (\<lambda>(n, sg). (n, ov upd (last_val items (j, n)) sg)) sigs"
  by (induction sigs) (auto simp: last_val_Cons split: option.splits)

text \<open>The signal-level overlay loop, entity by entity.\<close>

lemma apply_sig_attr_map:
  assumes "wf_msgs ms" "\<And>v w sg. upd v (upd w sg) = upd v sg"
  shows "apply_sig_attr upd items ms
       = map (\<lambda>(i, m). (i, m\<lparr>signals :=
           map (\<lambda>(nm, sg). (nm, ov upd (last_val items (i, nm)) sg)) (signals m)\<rparr>)) ms"
  using assms(1)
proof (induction items arbitrary: ms)
  case Nil
  have "map (\<lambda>(nm, sg). (nm, sg)) = (\<lambda>xs :: (string \<times> Signal) list. xs)"
    by (rule ext) (simp add: case_prod_unfold)
  then show ?case by (simp add: case_prod_unfold)
next
  case (Cons a items)
  obtain i nm v where a: "a = ((i, nm), v)" by (cases a) auto
  let ?g = "\<lambda>m. m\<lparr>signals := set_at nm (upd v) (signals m)\<rparr>"
  have "apply_sig_attr upd (a # items) ms = apply_sig_attr upd items (set_at i ?g ms)"
    unfolding a apply_sig_attr.simps sig_step_set_at [OF Cons.prems] ..
  also have "\<dots> = map (\<lambda>(i, m). (i, m\<lparr>signals :=
           map (\<lambda>(nm, sg). (nm, ov upd (last_val items (i, nm)) sg)) (signals m)\<rparr>)) (set_at i ?g ms)"
    by (rule Cons.IH) (rule wf_msgs_set_at_sig [OF Cons.prems])
  also have "\<dots> = map (\<lambda>(i, m). (i, m\<lparr>signals :=
           map (\<lambda>(nm, sg). (nm, ov upd (last_val (a # items) (i, nm)) sg)) (signals m)\<rparr>)) ms"
    unfolding set_at_def [of i] a
    by (induction ms) (auto simp: sig_map_step_eq [of upd, OF assms(2)] sig_map_step_ne)
  finally show ?case .
qed

subsection \<open>The results dictionaries\<close>

lemma od_get_dict_of:
  "od_get (dict_of items acc) k
     = (case last_val items k of Some v \<Rightarrow> Some v | None \<Rightarrow> od_get acc k)"
proof (induction items arbitrary: acc)
  case Nil
  then show ?case by simp
next
  case (Cons a items)
  obtain j v where a: "a = (j, v)" by (cases a)
  show ?case
    unfolding a dict_of.simps Cons.IH
    by (simp add: last_val_Cons od_get_od_set split: option.splits)
qed

lemma distinct_dict_of:
  "distinct (od_keys acc) \<Longrightarrow> distinct (od_keys (dict_of items acc))"
proof (induction items arbitrary: acc)
  case Nil
  then show ?case by simp
next
  case (Cons a items)
  obtain j v where a: "a = (j, v)" by (cases a)
  show ?case
    unfolding a dict_of.simps
    by (rule Cons.IH) (rule distinct_od_set [OF Cons.prems])
qed

lemma last_val_distinct: "distinct (od_keys d) \<Longrightarrow> last_val d k = od_get d k"
proof (induction d)
  case Nil
  then show ?case by (simp add: od_get_def)
next
  case (Cons a d)
  obtain j v where a: "a = (j, v)" by (cases a)
  have "j \<notin> fst ` set d" using Cons.prems a by (simp add: od_keys_def)
  then have n: "od_get d j = None" by (simp add: od_get_def map_of_eq_None_iff)
  have ih: "last_val d k = od_get d k" using Cons by (simp add: od_keys_def)
  show ?case
    unfolding a last_val_Cons ih using n
    by (auto simp: od_get_def split: option.splits)
qed

lemma last_val_dict_of [simp]: "last_val (dict_of items []) k = last_val items k"
proof -
  have "last_val (dict_of items []) k = od_get (dict_of items []) k"
    by (rule last_val_distinct) (rule distinct_dict_of, simp add: od_keys_def)
  then show ?thesis
    unfolding od_get_dict_of by (simp add: od_get_def split: option.splits)
qed


subsection \<open>The sweeps as one overlay\<close>

lemma ov_last_or:
  "ov (\<lambda>v m. m\<lparr>cycle_time := v\<rparr>) li m = m\<lparr>cycle_time := last_or (cycle_time m) li\<rparr>"
  "ov (\<lambda>v m. m\<lparr>cycle_time_fast := v\<rparr>) li m = m\<lparr>cycle_time_fast := last_or (cycle_time_fast m) li\<rparr>"
  "ov (\<lambda>v m. m\<lparr>cycle_time_active := v\<rparr>) li m = m\<lparr>cycle_time_active := last_or (cycle_time_active m) li\<rparr>"
  "ov (\<lambda>v m. m\<lparr>msg_send_type := v\<rparr>) li m = m\<lparr>msg_send_type := last_or (msg_send_type m) li\<rparr>"
  "ov (\<lambda>v m. m\<lparr>nr_of_repetition := v\<rparr>) li m = m\<lparr>nr_of_repetition := last_or (nr_of_repetition m) li\<rparr>"
  "ov (\<lambda>v m. m\<lparr>delay_time := v\<rparr>) li m = m\<lparr>delay_time := last_or (delay_time m) li\<rparr>"
  "ov (\<lambda>v m. m\<lparr>start_delay_time := v\<rparr>) li m = m\<lparr>start_delay_time := last_or (start_delay_time m) li\<rparr>"
  "ov (\<lambda>v m. m\<lparr>il_support := v\<rparr>) li m = m\<lparr>il_support := last_or (il_support m) li\<rparr>"
  "ov (\<lambda>v m. m\<lparr>nm_message := v\<rparr>) li m = m\<lparr>nm_message := last_or (nm_message m) li\<rparr>"
  "ov (\<lambda>v m. m\<lparr>nm_asr_message := v\<rparr>) li m = m\<lparr>nm_asr_message := last_or (nm_asr_message m) li\<rparr>"
  "ov (\<lambda>v m. m\<lparr>vframe_format := v\<rparr>) li m = m\<lparr>vframe_format := last_or (vframe_format m) li\<rparr>"
  "ov (\<lambda>v m. m\<lparr>canfd_brs := v\<rparr>) li m = m\<lparr>canfd_brs := last_or (canfd_brs m) li\<rparr>"
  "ov (\<lambda>v m. m\<lparr>diag_request := v\<rparr>) li m = m\<lparr>diag_request := last_or (diag_request m) li\<rparr>"
  "ov (\<lambda>v m. m\<lparr>diag_response := v\<rparr>) li m = m\<lparr>diag_response := last_or (diag_response m) li\<rparr>"
  "ov (\<lambda>v m. m\<lparr>diag_state := v\<rparr>) li m = m\<lparr>diag_state := last_or (diag_state m) li\<rparr>"
  "ov (\<lambda>v m. m\<lparr>msg_long_symbol := v\<rparr>) ls m = m\<lparr>msg_long_symbol := last_or (msg_long_symbol m) ls\<rparr>"
  "ov (\<lambda>v m. m\<lparr>msg_comment := v\<rparr>) ls m = m\<lparr>msg_comment := last_or (msg_comment m) ls\<rparr>"
  "ov (\<lambda>v sg. sg\<lparr>start_value := v\<rparr>) li sg = sg\<lparr>start_value := last_or (start_value sg) li\<rparr>"
  "ov (\<lambda>v sg. sg\<lparr>inactive_value := v\<rparr>) li sg = sg\<lparr>inactive_value := last_or (inactive_value sg) li\<rparr>"
  "ov (\<lambda>v sg. sg\<lparr>sg_send_type := v\<rparr>) li sg = sg\<lparr>sg_send_type := last_or (sg_send_type sg) li\<rparr>"
  "ov (\<lambda>v sg. sg\<lparr>timeout_time := v\<rparr>) li sg = sg\<lparr>timeout_time := last_or (timeout_time sg) li\<rparr>"
  "ov (\<lambda>v sg. sg\<lparr>invalid_value := v\<rparr>) ls sg = sg\<lparr>invalid_value := last_or (invalid_value sg) ls\<rparr>"
  "ov (\<lambda>v sg. sg\<lparr>sg_long_symbol := v\<rparr>) ls sg = sg\<lparr>sg_long_symbol := last_or (sg_long_symbol sg) ls\<rparr>"
  "ov (\<lambda>v sg. sg\<lparr>value_desc := v\<rparr>) ls sg = sg\<lparr>value_desc := last_or (value_desc sg) ls\<rparr>"
  "ov (\<lambda>v sg. sg\<lparr>sg_comment := v\<rparr>) ls sg = sg\<lparr>sg_comment := last_or (sg_comment sg) ls\<rparr>"
  by (cases li; cases ls; simp)+

lemma overlay_over: "overlay content ms = over (msg_overlay content) (sig_overlay content) ms"
  by (simp add: overlay_def over_def)

lemma map_snd_id: "map (\<lambda>(nm, sg). (nm, sg)) xs = xs"
  by (induction xs) auto

lemma over_id: "over (\<lambda>i m. m) (\<lambda>i nm sg. sg) ms = ms"
  unfolding over_def by (induction ms) (auto simp: map_snd_id)

lemma od_keys_over [simp]: "od_keys (over g h ms) = od_keys ms"
  unfolding over_def by (induction ms) (auto simp: od_keys_def)

lemma wf_msgs_over [simp]: "wf_msgs (over g h ms) = wf_msgs ms"
proof -
  have "list_all (\<lambda>(i, m). distinct (od_keys (signals m))) (over g h ms)
      = list_all (\<lambda>(i, m). distinct (od_keys (signals m))) ms"
    unfolding over_def by (induction ms) auto
  then show ?thesis by (simp add: wf_msgs_def)
qed

lemma ov_signals:
  assumes "\<And>v m S. upd v (m\<lparr>signals := S\<rparr>) = (upd v m)\<lparr>signals := S\<rparr>"
  shows "ov upd lv (m\<lparr>signals := S\<rparr>) = (ov upd lv m)\<lparr>signals := S\<rparr>"
  by (cases lv) (simp_all add: assms)

lemma msg_pass_over:
  assumes "wf_msgs ms" "\<And>v w m. upd v (upd w m) = upd v m"
    "\<And>v m S. upd v (m\<lparr>signals := S\<rparr>) = (upd v m)\<lparr>signals := S\<rparr>"
  shows "apply_msg_attr upd items (over g h ms) = over (\<lambda>i m. ov upd (last_val items i) (g i m)) h ms"
proof -
  have "distinct (od_keys (over g h ms))" using assms(1) by (simp add: wf_msgs_def)
  then have "apply_msg_attr upd items (over g h ms)
           = map (\<lambda>(i, m). (i, ov upd (last_val items i) m)) (over g h ms)"
    using assms(2) by (rule apply_msg_attr_map)
  also have "\<dots> = over (\<lambda>i m. ov upd (last_val items i) (g i m)) h ms"
    unfolding over_def by (induction ms) (auto simp: ov_signals [of upd, OF assms(3)])
  finally show ?thesis .
qed

lemma sig_pass_over:
  assumes "wf_msgs ms" "\<And>v w sg. upd v (upd w sg) = upd v sg"
  shows "apply_sig_attr upd items (over g h ms)
       = over g (\<lambda>i nm sg. ov upd (last_val items (i, nm)) (h i nm sg)) ms"
proof -
  have "wf_msgs (over g h ms)" using assms(1) by simp
  then have "apply_sig_attr upd items (over g h ms)
           = map (\<lambda>(i, m). (i, m\<lparr>signals :=
               map (\<lambda>(nm, sg). (nm, ov upd (last_val items (i, nm)) sg)) (signals m)\<rparr>)) (over g h ms)"
    using assms(2) by (rule apply_sig_attr_map)
  also have "\<dots> = over g (\<lambda>i nm sg. ov upd (last_val items (i, nm)) (h i nm sg)) ms"
    unfolding over_def by (induction ms) (auto simp: case_prod_unfold comp_def)
  finally show ?thesis .
qed

lemma sweeps_overlay:
  assumes "wf_msgs ms"
  shows "apply_val_cm content (apply_sig_attrs content (apply_msg_attrs content ms)) = overlay content ms"
proof -
  have "apply_val_cm content (apply_sig_attrs content (apply_msg_attrs content (over (\<lambda>i m. m) (\<lambda>i nm sg. sg) ms)))
      = over (msg_overlay content) (sig_overlay content) ms"
    unfolding apply_msg_attrs_def apply_sig_attrs_def apply_val_cm_def o_apply
      parse_msg_int_attr_def parse_sig_int_attr_def parse_sig_str_attr_def
    using assms
    apply (simp add: msg_pass_over sig_pass_over ov_last_or)
    apply (rule arg_cong2 [where f = "\<lambda>g h. over g h ms"])
     apply (intro ext, simp add: msg_overlay_def)
    apply (intro ext, simp add: sig_overlay_def)
    done
  then show ?thesis by (simp add: over_id overlay_over)
qed

subsection \<open>The declared messages\<close>

lemma wf_msgs_od_set:
  "wf_msgs ms \<Longrightarrow> distinct (od_keys (signals m)) \<Longrightarrow> wf_msgs (od_set i m ms)"
proof -
  assume w: "wf_msgs ms" and d: "distinct (od_keys (signals m))"
  have "list_all (\<lambda>(i, m). distinct (od_keys (signals m))) ms
    \<Longrightarrow> list_all (\<lambda>(i, m). distinct (od_keys (signals m))) (od_set i m ms)"
    using d by (induction ms) auto
  then show ?thesis
    using w by (simp add: wf_msgs_def distinct_od_set)
qed

lemma parse_block_distinct:
  "parse_block rs sigs = Inr sigs' \<Longrightarrow> distinct (od_keys sigs) \<Longrightarrow> distinct (od_keys sigs')"
  by (induction rs sigs rule: parse_block.induct)
     (auto simp: distinct_od_set split: sum.splits)

lemma parse_messages_wf:
  "parse_messages rs ms = Inr ms' \<Longrightarrow> wf_msgs ms \<Longrightarrow> wf_msgs ms'"
proof (induction rs ms rule: parse_messages.induct)
  case (2 i n d t rest ms)
  then obtain sigs where s: "parse_block (takeWhile (\<lambda>r. \<not> is_BO r) rest) [] = Inr sigs"
    by (auto split: sum.splits)
  have "distinct (od_keys sigs)"
    using parse_block_distinct [OF s] by (simp add: od_keys_def)
  then show ?case
    using 2 s by (auto simp: wf_msgs_od_set)
qed auto

lemma wf_msgs_Nil [simp]: "wf_msgs []"
  by (simp add: wf_msgs_def od_keys_def)

lemma parse_dbc_overlay:
  "parse_dbc content =
     (case parse_messages content [] of
        Inl e \<Rightarrow> Inl e
      | Inr ms \<Rightarrow>
          Inr (new_DBCDatabase\<lparr>
                 nodes := (case bu_match content of None \<Rightarrow> [] | Some s \<Rightarrow> split_ws (py_strip s)),
                 messages := overlay content ms,
                 bus_type := (case global_attr ''BusType'' content of None \<Rightarrow> [] | Some v \<Rightarrow> v),
                 db_name := (case global_attr ''DBName'' content of None \<Rightarrow> [] | Some v \<Rightarrow> v) \<rparr>))"
proof (cases "parse_messages content []")
  case (Inl e)
  then show ?thesis by (simp add: parse_dbc_def)
next
  case (Inr ms)
  have "wf_msgs ms" using parse_messages_wf [OF Inr] by simp
  then show ?thesis
    using Inr by (simp add: parse_dbc_def sweeps_overlay)
qed

subsection \<open>Records that name an entity\<close>

lemma parse_block_drop:
  "msg_key r \<noteq> None \<or> sig_key r \<noteq> None \<Longrightarrow>
     parse_block (xs @ r # ys) sigs = parse_block (xs @ ys) sigs"
proof (induction xs sigs rule: parse_block.induct)
  case (1 sigs)
  then show ?case by (cases r) auto
qed (auto split: sum.splits)

lemma takeWhile_drop:
  "msg_key r \<noteq> None \<or> sig_key r \<noteq> None \<Longrightarrow>
     parse_block (takeWhile (\<lambda>r. \<not> is_BO r) (xs @ r # ys)) sigs
   = parse_block (takeWhile (\<lambda>r. \<not> is_BO r) (xs @ ys)) sigs"
proof -
  assume k: "msg_key r \<noteq> None \<or> sig_key r \<noteq> None"
  then have nb: "\<not> is_BO r" by (cases r) auto
  show ?thesis
  proof (cases "\<forall>x\<in>set xs. \<not> is_BO x")
    case True
    then show ?thesis
      using nb by (simp add: takeWhile_append2 parse_block_drop [OF k])
  next
    case False
    then obtain x where x: "x \<in> set xs" "\<not> \<not> is_BO x" by auto
    show ?thesis
      unfolding takeWhile_append1 [of x xs "\<lambda>r. \<not> is_BO r", OF x] ..
  qed
qed

lemma parse_messages_drop:
  "msg_key r \<noteq> None \<or> sig_key r \<noteq> None \<Longrightarrow>
     parse_messages (xs @ r # ys) ms = parse_messages (xs @ ys) ms"
proof (induction xs arbitrary: ms)
  case Nil
  then show ?case by (cases r) auto
next
  case (Cons a xs)
  show ?case
  proof (cases a)
    case (BO i n d t)
    show ?thesis
      unfolding BO append_Cons parse_messages.simps takeWhile_drop [OF Cons.prems]
        Cons.IH [OF Cons.prems] ..
  qed (simp_all add: Cons.IH [OF Cons.prems])
qed

lemma bu_match_drop:
  "msg_key r \<noteq> None \<or> sig_key r \<noteq> None \<Longrightarrow> bu_match (xs @ r # ys) = bu_match (xs @ ys)"
proof (induction xs rule: bu_match.induct)
  case 1
  then show ?case by (cases r) auto
qed auto

lemma global_attr_drop:
  "msg_key r \<noteq> None \<or> sig_key r \<noteq> None \<Longrightarrow>
     global_attr a (xs @ r # ys) = global_attr a (xs @ ys)"
proof (induction a xs rule: global_attr.induct)
  case (1 a)
  then show ?case by (cases r) auto
qed auto

lemma map_filter_append: "List.map_filter f (xs @ ys) = List.map_filter f xs @ List.map_filter f ys"
  by (simp add: map_filter_def)

lemma last_val_map_filter_drop:
  assumes "\<And>v. sel r \<noteq> Some (k, v)"
  shows "last_val (List.map_filter sel (xs @ r # ys)) k = last_val (List.map_filter sel (xs @ ys)) k"
proof (cases "sel r")
  case None
  then show ?thesis by (simp add: map_filter_append map_filter_simps)
next
  case (Some a)
  obtain j v where a: "a = (j, v)" by (cases a)
  have "j \<noteq> k" using assms Some a by auto
  then show ?thesis
    using Some a
    by (simp add: map_filter_append map_filter_simps last_val_append last_val_Cons
        split: option.splits)
qed

lemma matches_drop:
  "msg_key r \<noteq> Some i \<Longrightarrow>
     last_val (msg_int_matches a (xs @ r # ys)) i = last_val (msg_int_matches a (xs @ ys)) i"
  "msg_key r \<noteq> Some i \<Longrightarrow>
     last_val (msg_str_matches a (xs @ r # ys)) i = last_val (msg_str_matches a (xs @ ys)) i"
  "msg_key r \<noteq> Some i \<Longrightarrow>
     last_val (cm_bo_matches (xs @ r # ys)) i = last_val (cm_bo_matches (xs @ ys)) i"
  "sig_key r \<noteq> Some k \<Longrightarrow>
     last_val (sig_int_matches a (xs @ r # ys)) k = last_val (sig_int_matches a (xs @ ys)) k"
  "sig_key r \<noteq> Some k \<Longrightarrow>
     last_val (sig_str_matches a (xs @ r # ys)) k = last_val (sig_str_matches a (xs @ ys)) k"
  "sig_key r \<noteq> Some k \<Longrightarrow>
     last_val (val_matches (xs @ r # ys)) k = last_val (val_matches (xs @ ys)) k"
  "sig_key r \<noteq> Some k \<Longrightarrow>
     last_val (cm_sg_matches (xs @ r # ys)) k = last_val (cm_sg_matches (xs @ ys)) k"
  unfolding msg_int_matches_def msg_str_matches_def sig_int_matches_def
    sig_str_matches_def val_matches_def cm_sg_matches_def cm_bo_matches_def
  by (rule last_val_map_filter_drop, cases r, auto)+

lemma msg_overlay_drop:
  "msg_key r \<noteq> Some i \<Longrightarrow> msg_overlay (xs @ r # ys) i m = msg_overlay (xs @ ys) i m"
  by (simp add: msg_overlay_def matches_drop)

lemma sig_overlay_drop:
  "sig_key r \<noteq> Some (i, nm) \<Longrightarrow> sig_overlay (xs @ r # ys) i nm sg = sig_overlay (xs @ ys) i nm sg"
  by (simp add: sig_overlay_def matches_drop)

lemma over_cong:
  assumes "\<And>i m. (i, m) \<in> set ms \<Longrightarrow> g i m = g' i m"
    "\<And>i m nm sg. (i, m) \<in> set ms \<Longrightarrow> (nm, sg) \<in> set (signals m) \<Longrightarrow> h i nm sg = h' i nm sg"
  shows "over g h ms = over g' h' ms"
proof -
  have "(case x of (i, m) \<Rightarrow> (i, (g i m)\<lparr>signals := map (\<lambda>(nm, sg). (nm, h i nm sg)) (signals m)\<rparr>))
      = (case x of (i, m) \<Rightarrow> (i, (g' i m)\<lparr>signals := map (\<lambda>(nm, sg). (nm, h' i nm sg)) (signals m)\<rparr>))"
    if "x \<in> set ms" for x
  proof -
    obtain i m where x: "x = (i, m)" by (cases x)
    have 1: "g i m = g' i m" using assms(1) that x by simp
    have 2: "map (\<lambda>(nm, sg). (nm, h i nm sg)) (signals m) = map (\<lambda>(nm, sg). (nm, h' i nm sg)) (signals m)"
      by (rule map_cong [OF refl]) (use assms(2) that x in auto)
    show ?thesis unfolding x by (simp add: 1 2)
  qed
  then show ?thesis unfolding over_def by (rule map_cong [OF refl])
qed

lemma od_get_member: "(k, x) \<in> set d \<Longrightarrow> od_get d k \<noteq> None"
proof -
  assume "(k, x) \<in> set d"
  then have "k \<in> fst ` set d" by force
  then show ?thesis by (simp add: od_get_def map_of_eq_None_iff)
qed

lemma od_get_member_distinct: "distinct (od_keys d) \<Longrightarrow> (k, x) \<in> set d \<Longrightarrow> od_get d k = Some x"
  by (simp add: od_get_def od_keys_def)

lemma dangling_keys:
  assumes "wf_msgs ms" "dangling ms r" "(i, m) \<in> set ms"
  shows "msg_key r \<noteq> Some i" "(nm, sg) \<in> set (signals m) \<Longrightarrow> sig_key r \<noteq> Some (i, nm)"
proof -
  have g: "od_get ms i = Some m"
    using assms(1,3) by (simp add: wf_msgs_def od_get_member_distinct)
  show "msg_key r \<noteq> Some i"
    using assms(2) g by (auto simp: dangling_def)
  show "sig_key r \<noteq> Some (i, nm)" if "(nm, sg) \<in> set (signals m)"
  proof
    assume s: "sig_key r = Some (i, nm)"
    then have "msg_key r = None" by (cases r) auto
    then have "od_get (signals m) nm = None"
      using assms(2) g s by (simp add: dangling_def)
    then show False using od_get_member [OF that] by simp
  qed
qed

lemma dangling_overlay:
  assumes "wf_msgs ms" "dangling ms r"
  shows "overlay (xs @ r # ys) ms = overlay (xs @ ys) ms"
  unfolding overlay_over
  by (rule over_cong)
     (simp_all add: msg_overlay_drop sig_overlay_drop dangling_keys [OF assms])

lemma dangling_is_key: "dangling ms r \<Longrightarrow> msg_key r \<noteq> None \<or> sig_key r \<noteq> None"
  by (auto simp: dangling_def split: option.splits)

text \<open>
  Claim C8. An attribute, comment or value-table record whose message id is not among
  the declared messages, or whose signal name is not among the signals declared in that
  message, is discarded: the parser returns a database, and it is the database parsed
  from the document without that record.
\<close>

theorem dangling_record_discarded:
  assumes "parse_messages (xs @ r # ys) [] = Inr ms" and "dangling ms r"
  shows "parse_dbc (xs @ r # ys) = parse_dbc (xs @ ys)
       \<and> (\<exists>db. parse_dbc (xs @ r # ys) = Inr db)"
proof -
  have k: "msg_key r \<noteq> None \<or> sig_key r \<noteq> None"
    using assms(2) by (rule dangling_is_key)
  have w: "wf_msgs ms" using parse_messages_wf [OF assms(1)] by simp
  have p: "parse_messages (xs @ ys) [] = Inr ms"
    using assms(1) by (simp add: parse_messages_drop [OF k])
  show ?thesis
    unfolding parse_dbc_overlay assms(1) p
    by (simp add: dangling_overlay [OF w assms(2)] bu_match_drop [OF k] global_attr_drop [OF k])
qed

lemma ex_parse_head:
  "parse_messages (doc_head @ CM_SG 256 ''Speed'' ''gone'' # doc_tail) [] = Inr [(256, msg_plain)]"
  "dangling [(256, msg_plain)] (CM_SG 256 ''Speed'' ''gone'')"
  by (simp_all add: doc_head_def doc_tail_def msg_plain_def dangling_def od_get_def
      new_Message_def)

theorem dangling_record_discarded_witness:
  "parse_dbc (doc_head @ CM_SG 256 ''Speed'' ''gone'' # doc_tail) = parse_dbc (doc_head @ doc_tail)
   \<and> (\<exists>db. parse_dbc (doc_head @ CM_SG 256 ''Speed'' ''gone'' # doc_tail) = Inr db)"
  using dangling_record_discarded [OF ex_parse_head] .

subsection \<open>Looking up what was parsed\<close>

lemma parse_signal_name: "parse_signal sm = Inr sg \<Longrightarrow> sg_name sg = g_name sm"
  by (auto simp: parse_signal_def new_Signal_def split: option.splits)

lemma parse_block_lookup:
  "parse_block rs acc = Inr sigs \<Longrightarrow>
     (case last_val (sg_matches rs) nm of
        None \<Rightarrow> od_get sigs nm = od_get acc nm
      | Some sm \<Rightarrow> (\<exists>sg. parse_signal sm = Inr sg \<and> od_get sigs nm = Some sg))"
proof (induction rs arbitrary: acc)
  case Nil
  then show ?case by (simp add: sg_matches_def map_filter_simps)
next
  case (Cons a rs)
  show ?case
  proof (cases a)
    case (SG sm)
    then obtain sg where sg: "parse_signal sm = Inr sg"
      and r: "parse_block rs (od_set (sg_name sg) sg acc) = Inr sigs"
      using Cons.prems by (auto split: sum.splits)
    have m: "sg_matches (a # rs) = (g_name sm, sm) # sg_matches rs"
      by (simp add: SG sg_matches_def map_filter_simps)
    show ?thesis
      using Cons.IH [OF r] sg
      by (auto simp: m last_val_Cons od_get_od_set parse_signal_name split: option.splits)
  qed (use Cons in \<open>simp_all add: sg_matches_def map_filter_simps\<close>)
qed

lemma parse_messages_lookup:
  "parse_messages rs acc = Inr ms \<Longrightarrow>
     (case last_val (bo_matches rs) i of
        None \<Rightarrow> od_get ms i = od_get acc i
      | Some (n, d, t, block) \<Rightarrow>
          (\<exists>sigs. parse_block block [] = Inr sigs
             \<and> od_get ms i = Some (new_Message\<lparr> msg_id := i, msg_name := n, dlc := d,
                                     transmitter := t, signals := sigs \<rparr>)))"
proof (induction rs arbitrary: acc)
  case Nil
  then show ?case by simp
next
  case (Cons a rs)
  show ?case
  proof (cases a)
    case (BO j n d t)
    then obtain sigs where sg: "parse_block (takeWhile (\<lambda>r. \<not> is_BO r) rs) [] = Inr sigs"
      and r: "parse_messages rs (od_set j (new_Message\<lparr> msg_id := j, msg_name := n, dlc := d,
                                     transmitter := t, signals := sigs \<rparr>) acc) = Inr ms"
      using Cons.prems by (auto split: sum.splits)
    show ?thesis
      using Cons.IH [OF r] sg
      by (auto simp: BO last_val_Cons od_get_od_set split: option.splits)
  qed (use Cons in simp_all)
qed

lemma od_get_map_vals: "od_get (map (\<lambda>(k, x). (k, f k x)) d) k = map_option (f k) (od_get d k)"
  by (induction d) (auto simp: od_get_def)

lemma od_get_overlay:
  "od_get (overlay content ms) i
     = map_option (\<lambda>m. (msg_overlay content i m)\<lparr>signals :=
            map (\<lambda>(nm, sg). (nm, sig_overlay content i nm sg)) (signals m)\<rparr>) (od_get ms i)"
  unfolding overlay_def by (rule od_get_map_vals)

lemma msg_overlay_signals:
  "(msg_overlay content i m)\<lparr>signals := s\<rparr> = msg_overlay content i (m\<lparr>signals := s\<rparr>)"
  by (simp add: msg_overlay_def)

text \<open>
  Claim C9. Of several records with the same key the last one in document order is the
  one the database holds. For a message id \<open>i\<close> and a signal name \<open>nm\<close>: the message
  stored under \<open>i\<close> is the one of the last declaration of \<open>i\<close>; each of its attribute
  fields and its comment hold the value of the last record that assigns it to \<open>i\<close>
  (\<open>msg_overlay\<close>), or the default; the signal stored under \<open>nm\<close> is the one of the last
  declaration of \<open>nm\<close> in the block of that message declaration, and each of its
  attribute fields, its value table and its comment hold the value of the last record
  that assigns it to \<open>(i, nm)\<close> (\<open>sig_overlay\<close>), or the default.
\<close>

theorem last_record_wins:
  assumes "parse_dbc content = Inr db"
  shows "case last_val (bo_matches content) i of
           None \<Rightarrow> od_get (messages db) i = None
         | Some (n, d, t, block) \<Rightarrow>
             (\<exists>m. od_get (messages db) i = Some m
                \<and> m\<lparr>signals := []\<rparr>
                    = msg_overlay content i
                        (new_Message\<lparr> msg_id := i, msg_name := n, dlc := d, transmitter := t \<rparr>)
                \<and> (case last_val (sg_matches block) nm of
                     None \<Rightarrow> od_get (signals m) nm = None
                   | Some sm \<Rightarrow>
                       (\<exists>sg. parse_signal sm = Inr sg
                          \<and> od_get (signals m) nm = Some (sig_overlay content i nm sg))))"
proof -
  obtain ms where ms: "parse_messages content [] = Inr ms"
    and db: "messages db = overlay content ms"
    using assms unfolding parse_dbc_overlay by (auto split: sum.splits)
  show ?thesis
  proof (cases "last_val (bo_matches content) i")
    case None
    then have "od_get ms i = None"
      using parse_messages_lookup [OF ms, of i] by (simp add: od_get_def)
    then show ?thesis using None by (simp add: db od_get_overlay)
  next
    case (Some a)
    obtain n d t block where a: "a = (n, d, t, block)" by (cases a) auto
    obtain sigs where sigs: "parse_block block [] = Inr sigs"
      and g: "od_get ms i = Some (new_Message\<lparr> msg_id := i, msg_name := n, dlc := d,
                                     transmitter := t, signals := sigs \<rparr>)"
      using parse_messages_lookup [OF ms, of i] Some a by auto
    let ?m = "(msg_overlay content i (new_Message\<lparr> msg_id := i, msg_name := n, dlc := d,
                   transmitter := t, signals := sigs \<rparr>))\<lparr>signals :=
                map (\<lambda>(nm, sg). (nm, sig_overlay content i nm sg)) sigs\<rparr>"
    have 1: "od_get (messages db) i = Some ?m"
      by (simp add: db od_get_overlay g)
    have 2: "?m\<lparr>signals := []\<rparr> = msg_overlay content i
                (new_Message\<lparr> msg_id := i, msg_name := n, dlc := d, transmitter := t \<rparr>)"
      by (simp add: msg_overlay_signals new_Message_def)
    have s: "signals ?m = map (\<lambda>(nm, sg). (nm, sig_overlay content i nm sg)) sigs"
      by simp
    have 3: "case last_val (sg_matches block) nm of
               None \<Rightarrow> od_get (signals ?m) nm = None
             | Some sm \<Rightarrow> (\<exists>sg. parse_signal sm = Inr sg
                          \<and> od_get (signals ?m) nm = Some (sig_overlay content i nm sg))"
      unfolding s od_get_map_vals
      using parse_block_lookup [OF sigs, of nm]
      by (auto simp: od_get_def split: option.splits)
    show ?thesis
      unfolding Some a using 1 2 3 by auto
  qed
qed

lemma ex_py_float:
  "py_float ''1'' = Some (Finite 1)" "py_float ''0'' = Some (Finite 0)"
  by (simp_all add: py_float_def float_strip_def is_float_space_def lower_def float_number_def is_digit_def
      digit_val_def exponent_def nat_of_digits_def scale10_def)

lemma ex_parse_twice: "\<exists>db. parse_dbc doc_twice = Inr db"
proof -
  have "\<exists>sg. parse_signal sm_first = Inr sg" "\<exists>sg. parse_signal sm_last = Inr sg"
    by (simp_all add: parse_signal_def sm_first_def sm_last_def ex_py_float)
  then have "\<exists>ms. parse_messages doc_twice [] = Inr ms"
    by (auto simp: doc_twice_def)
  then show ?thesis
    unfolding parse_dbc_overlay by auto
qed

theorem last_record_wins_witness:
  "\<exists>db m sg. parse_dbc doc_twice = Inr db
     \<and> od_get (messages db) 256 = Some m
     \<and> msg_name m = ''Engine'' \<and> dlc m = 8 \<and> cycle_time m = 20
     \<and> od_get (signals m) ''Speed'' = Some sg
     \<and> sg_length sg = 16 \<and> sg_comment sg = ''second''"
proof -
  obtain db where db: "parse_dbc doc_twice = Inr db"
    using ex_parse_twice by auto
  have b: "last_val (bo_matches doc_twice) 256
         = Some (''Engine'', 8, ''ECU'', drop 2 doc_twice)"
    by (simp add: doc_twice_def last_val_def)
  have s: "last_val (sg_matches (drop 2 doc_twice)) ''Speed'' = Some sm_last"
    by (simp add: doc_twice_def sg_matches_def map_filter_simps last_val_def sm_first_def sm_last_def)
  obtain m sg where m: "od_get (messages db) 256 = Some m"
    and f: "m\<lparr>signals := []\<rparr> = msg_overlay doc_twice 256
              (new_Message\<lparr> msg_id := 256, msg_name := ''Engine'', dlc := 8, transmitter := ''ECU'' \<rparr>)"
    and p: "parse_signal sm_last = Inr sg"
    and g: "od_get (signals m) ''Speed'' = Some (sig_overlay doc_twice 256 ''Speed'' sg)"
    using last_record_wins [OF db, of 256 "''Speed''"] by (auto simp: b s)
  have c: "last_val (msg_int_matches ''GenMsgCycleTime'' doc_twice) 256 = Some 20"
    "last_val (cm_sg_matches doc_twice) (256, ''Speed'') = Some ''second''"
    by (simp_all add: doc_twice_def matches_defs last_val_def)
  have "msg_name (m\<lparr>signals := []\<rparr>) = ''Engine''" "dlc (m\<lparr>signals := []\<rparr>) = 8"
    "cycle_time (m\<lparr>signals := []\<rparr>) = 20"
    unfolding f by (simp_all add: msg_overlay_def c)
  moreover have "sg_length sg = 16"
    using p by (auto simp: parse_signal_def sm_last_def sm_first_def ex_py_float)
  moreover have "sg_length (sig_overlay doc_twice 256 ''Speed'' sg) = sg_length sg"
    "sg_comment (sig_overlay doc_twice 256 ''Speed'' sg) = ''second''"
    by (simp_all add: sig_overlay_def c)
  ultimately show ?thesis
    using db m g by auto
qed

subsection \<open>Whole numbers and defaults\<close>

lemma normalize_whole: "whole n v \<Longrightarrow> normalize_val v = Inr (PInt n)"
  by (auto simp: whole_def)

lemma check_cols_mem:
  "check_cols old_row new_row is acc = Inr cols \<Longrightarrow> i \<in> cols \<Longrightarrow>
     i \<in> acc \<or> (\<exists>a b. normalize_val (old_row ! i) = Inr a \<and> normalize_val (new_row ! i) = Inr b
                    \<and> py_ne a b)"
proof (induction "is" arbitrary: acc)
  case Nil
  then show ?case by simp
next
  case (Cons j "is")
  then obtain a b where a: "normalize_val (old_row ! j) = Inr a"
    and b: "normalize_val (new_row ! j) = Inr b"
    and r: "check_cols old_row new_row is (if py_ne a b then insert j acc else acc) = Inr cols"
    by (auto split: sum.splits if_splits)
  show ?case
    using Cons.IH [OF r Cons.prems(2)] a b by (auto split: if_splits)
qed

lemma diff_indices_mem:
  "diff_indices old_row new_row is = Inr ds \<Longrightarrow> i \<in> set ds \<Longrightarrow>
     (\<exists>a b. normalize_val (old_row ! i) = Inr a \<and> normalize_val (new_row ! i) = Inr b
                    \<and> py_ne a b)"
proof (induction "is" arbitrary: ds)
  case Nil
  then show ?case by simp
next
  case (Cons j "is")
  then obtain a b ds' where a: "normalize_val (old_row ! j) = Inr a"
    and b: "normalize_val (new_row ! j) = Inr b"
    and r: "diff_indices old_row new_row is = Inr ds'"
    and d: "ds = (if py_ne a b then j # ds' else ds')"
    by (auto split: sum.splits if_splits)
  show ?case
  proof (cases "i \<in> set ds'")
    case True
    then show ?thesis using Cons.IH [OF r] by simp
  next
    case False
    then have "i = j" "py_ne a b" using Cons.prems(2) d by (auto split: if_splits)
    then show ?thesis using a b by auto
  qed
qed

lemma whole_not_reported:
  assumes "whole n (old_row ! i)" "whole n (new_row ! i)"
  shows "check_row_diff old_row new_row = Inr (has_diff, cols) \<Longrightarrow> i \<notin> cols"
    "row_diffs old_row new_row = Inr ds \<Longrightarrow> i \<notin> set ds"
proof -
  have n: "normalize_val (old_row ! i) = Inr (PInt n)" "normalize_val (new_row ! i) = Inr (PInt n)"
    using assms by (simp_all add: normalize_whole)
  show "i \<notin> cols" if "check_row_diff old_row new_row = Inr (has_diff, cols)"
  proof
    assume i: "i \<in> cols"
    have "check_cols old_row new_row [0 ..< length old_row] {} = Inr cols"
      using that by (auto simp: check_row_diff_def split: sum.splits)
    from check_cols_mem [OF this i] show False using n by simp
  qed
  show "i \<notin> set ds" if "row_diffs old_row new_row = Inr ds"
    using diff_indices_mem [OF that [unfolded row_diffs_def], of i] n by auto
qed

lemma last_or_default:
  assumes "sel r = None \<or> (sel r = Some (k, w) \<and> last_val (List.map_filter sel (xs @ ys)) k = None)"
  shows "last_or w (last_val (List.map_filter sel (xs @ r # ys)) k)
       = last_or w (last_val (List.map_filter sel (xs @ ys)) k)"
  using assms
  by (auto simp: map_filter_append map_filter_simps last_val_append last_val_Cons
      split: option.splits)

lemma single_match:
  "last_or w (last_val (msg_int_matches n [BA_BO_INT a i v]) i) = (if a = n then v else w)"
  "last_or u (last_val (msg_str_matches n [BA_BO_STR a i t]) i) = (if a = n then t else u)"
  "last_or u (last_val (cm_bo_matches [CM_BO i t]) i) = t"
  "last_or w (last_val (sig_int_matches n [BA_SG_INT a i nm v]) (i, nm)) = (if a = n then v else w)"
  "last_or u (last_val (sig_str_matches n [BA_SG_STR a i nm t]) (i, nm)) = (if a = n then t else u)"
  "last_or u (last_val (val_matches [VAL i nm pairs]) (i, nm)) = val_desc_str pairs"
  "last_or u (last_val (cm_sg_matches [CM_SG i nm t]) (i, nm)) = t"
  by (simp_all add: matches_defs last_val_def)

lemma other_match:
  "msg_key r \<noteq> None \<or> sig_key r \<noteq> None \<Longrightarrow> (\<forall>a i v. r \<noteq> BA_BO_INT a i v) \<Longrightarrow>
     msg_int_matches n (xs @ r # ys) = msg_int_matches n (xs @ ys)"
  "msg_key r \<noteq> None \<or> sig_key r \<noteq> None \<Longrightarrow> (\<forall>a i v. r \<noteq> BA_BO_STR a i v) \<Longrightarrow>
     msg_str_matches n (xs @ r # ys) = msg_str_matches n (xs @ ys)"
  "msg_key r \<noteq> None \<or> sig_key r \<noteq> None \<Longrightarrow> (\<forall>i v. r \<noteq> CM_BO i v) \<Longrightarrow>
     cm_bo_matches (xs @ r # ys) = cm_bo_matches (xs @ ys)"
  "msg_key r \<noteq> None \<or> sig_key r \<noteq> None \<Longrightarrow> (\<forall>a i nm v. r \<noteq> BA_SG_INT a i nm v) \<Longrightarrow>
     sig_int_matches n (xs @ r # ys) = sig_int_matches n (xs @ ys)"
  "msg_key r \<noteq> None \<or> sig_key r \<noteq> None \<Longrightarrow> (\<forall>a i nm v. r \<noteq> BA_SG_STR a i nm v) \<Longrightarrow>
     sig_str_matches n (xs @ r # ys) = sig_str_matches n (xs @ ys)"
  "msg_key r \<noteq> None \<or> sig_key r \<noteq> None \<Longrightarrow> (\<forall>i nm v. r \<noteq> VAL i nm v) \<Longrightarrow>
     val_matches (xs @ r # ys) = val_matches (xs @ ys)"
  "msg_key r \<noteq> None \<or> sig_key r \<noteq> None \<Longrightarrow> (\<forall>i nm v. r \<noteq> CM_SG i nm v) \<Longrightarrow>
     cm_sg_matches (xs @ r # ys) = cm_sg_matches (xs @ ys)"
  by (cases r; simp add: matches_defs map_filter_append)+

lemma field_default:
  "last_val (msg_int_matches a (xs @ ys)) i = None \<Longrightarrow> (if a = n then v else w) = w \<Longrightarrow>
     last_or w (last_val (msg_int_matches n (xs @ BA_BO_INT a i v # ys)) i)
   = last_or w (last_val (msg_int_matches n (xs @ ys)) i)"
  "last_val (msg_str_matches a (xs @ ys)) i = None \<Longrightarrow> (if a = n then t else u) = u \<Longrightarrow>
     last_or u (last_val (msg_str_matches n (xs @ BA_BO_STR a i t # ys)) i)
   = last_or u (last_val (msg_str_matches n (xs @ ys)) i)"
  "last_val (cm_bo_matches (xs @ ys)) i = None \<Longrightarrow> t = u \<Longrightarrow>
     last_or u (last_val (cm_bo_matches (xs @ CM_BO i t # ys)) i)
   = last_or u (last_val (cm_bo_matches (xs @ ys)) i)"
  "last_val (sig_int_matches a (xs @ ys)) (i, nm) = None \<Longrightarrow> (if a = n then v else w) = w \<Longrightarrow>
     last_or w (last_val (sig_int_matches n (xs @ BA_SG_INT a i nm v # ys)) (i, nm))
   = last_or w (last_val (sig_int_matches n (xs @ ys)) (i, nm))"
  "last_val (sig_str_matches a (xs @ ys)) (i, nm) = None \<Longrightarrow> (if a = n then t else u) = u \<Longrightarrow>
     last_or u (last_val (sig_str_matches n (xs @ BA_SG_STR a i nm t # ys)) (i, nm))
   = last_or u (last_val (sig_str_matches n (xs @ ys)) (i, nm))"
  "last_val (val_matches (xs @ ys)) (i, nm) = None \<Longrightarrow> val_desc_str pairs = u \<Longrightarrow>
     last_or u (last_val (val_matches (xs @ VAL i nm pairs # ys)) (i, nm))
   = last_or u (last_val (val_matches (xs @ ys)) (i, nm))"
  "last_val (cm_sg_matches (xs @ ys)) (i, nm) = None \<Longrightarrow> t = u \<Longrightarrow>
     last_or u (last_val (cm_sg_matches (xs @ CM_SG i nm t # ys)) (i, nm))
   = last_or u (last_val (cm_sg_matches (xs @ ys)) (i, nm))"
  unfolding msg_int_matches_def msg_str_matches_def sig_int_matches_def
    sig_str_matches_def val_matches_def cm_sg_matches_def cm_bo_matches_def
  by (rule last_or_default; cases "a = n"; simp)+

lemma default_msg_overlay:
  assumes "absent_field r (xs @ ys)" "sets_default r"
  shows "msg_overlay (xs @ r # ys) i
            (new_Message\<lparr> msg_id := j, msg_name := n, dlc := d, transmitter := t, signals := s \<rparr>)
       = msg_overlay (xs @ ys) i
            (new_Message\<lparr> msg_id := j, msg_name := n, dlc := d, transmitter := t, signals := s \<rparr>)"
proof (cases "msg_key r = Some i")
  case False
  then show ?thesis by (rule msg_overlay_drop)
next
  case True
  show ?thesis
  proof (cases r)
    case (BA_BO_INT a i' v)
    then have a: "last_val (msg_int_matches a (xs @ ys)) i = None"
      and e: "msg_overlay [BA_BO_INT a i v] i new_Message = new_Message" and i: "i' = i"
      using assms True by (simp_all add: sets_default_def)
    show ?thesis
      unfolding BA_BO_INT i using e
      by (simp add: msg_overlay_def single_match new_Message_def field_default(1) [OF a]
          other_match)
  next
    case (BA_BO_STR a i' v)
    then have a: "last_val (msg_str_matches a (xs @ ys)) i = None"
      and e: "msg_overlay [BA_BO_STR a i v] i new_Message = new_Message" and i: "i' = i"
      using assms True by (simp_all add: sets_default_def)
    show ?thesis
      unfolding BA_BO_STR i using e
      by (simp add: msg_overlay_def single_match new_Message_def field_default(2) [OF a]
          other_match)
  next
    case (CM_BO i' v)
    then have a: "last_val (cm_bo_matches (xs @ ys)) i = None"
      and e: "msg_overlay [CM_BO i v] i new_Message = new_Message" and i: "i' = i"
      using assms True by (simp_all add: sets_default_def)
    show ?thesis
      unfolding CM_BO i using e
      by (simp add: msg_overlay_def single_match new_Message_def field_default(3) [OF a]
          other_match)
  qed (use True in simp_all)
qed

lemma parse_signal_fresh:
  assumes "parse_signal sm = Inr sg"
  shows "sg_comment sg = sg_comment new_Signal" "value_desc sg = value_desc new_Signal"
    "invalid_value sg = invalid_value new_Signal" "start_value sg = start_value new_Signal"
    "inactive_value sg = inactive_value new_Signal" "sg_send_type sg = sg_send_type new_Signal"
    "timeout_time sg = timeout_time new_Signal" "sg_long_symbol sg = sg_long_symbol new_Signal"
  using assms by (auto simp: parse_signal_def split: option.splits)

lemma default_sig_overlay:
  assumes "absent_field r (xs @ ys)" "sets_default r" "parse_signal sm = Inr sg"
  shows "sig_overlay (xs @ r # ys) i nm sg = sig_overlay (xs @ ys) i nm sg"
proof (cases "sig_key r = Some (i, nm)")
  case False
  then show ?thesis by (rule sig_overlay_drop)
next
  case True
  note f = parse_signal_fresh [OF assms(3)]
  show ?thesis
  proof (cases r)
    case (BA_SG_INT a i' nm' v)
    then have a: "last_val (sig_int_matches a (xs @ ys)) (i, nm) = None"
      and e: "sig_overlay [BA_SG_INT a i nm v] i nm new_Signal = new_Signal"
      and i: "i' = i" "nm' = nm"
      using assms True by (simp_all add: sets_default_def)
    show ?thesis
      unfolding BA_SG_INT i using e
      by (simp add: sig_overlay_def single_match f new_Signal_def field_default(4) [OF a]
          other_match)
  next
    case (BA_SG_STR a i' nm' v)
    then have a: "last_val (sig_str_matches a (xs @ ys)) (i, nm) = None"
      and e: "sig_overlay [BA_SG_STR a i nm v] i nm new_Signal = new_Signal"
      and i: "i' = i" "nm' = nm"
      using assms True by (simp_all add: sets_default_def)
    show ?thesis
      unfolding BA_SG_STR i using e
      by (simp add: sig_overlay_def single_match f new_Signal_def field_default(5) [OF a]
          other_match)
  next
    case (VAL i' nm' v)
    then have a: "last_val (val_matches (xs @ ys)) (i, nm) = None"
      and e: "sig_overlay [VAL i nm v] i nm new_Signal = new_Signal"
      and i: "i' = i" "nm' = nm"
      using assms True by (simp_all add: sets_default_def)
    show ?thesis
      unfolding VAL i using e
      by (simp add: sig_overlay_def single_match f new_Signal_def field_default(6) [OF a]
          other_match)
  next
    case (CM_SG i' nm' v)
    then have a: "last_val (cm_sg_matches (xs @ ys)) (i, nm) = None"
      and e: "sig_overlay [CM_SG i nm v] i nm new_Signal = new_Signal"
      and i: "i' = i" "nm' = nm"
      using assms True by (simp_all add: sets_default_def)
    show ?thesis
      unfolding CM_SG i using e
      by (simp add: sig_overlay_def single_match f new_Signal_def field_default(7) [OF a]
          other_match)
  qed (use True in simp_all)
qed

lemma parse_messages_fresh:
  assumes "parse_messages rs [] = Inr ms" "(i, m) \<in> set ms"
  shows "\<exists>n d t s. m = new_Message\<lparr> msg_id := i, msg_name := n, dlc := d, transmitter := t, signals := s \<rparr>"
    "(nm, sg) \<in> set (signals m) \<Longrightarrow> \<exists>sm. parse_signal sm = Inr sg"
proof -
  have w: "wf_msgs ms" using parse_messages_wf [OF assms(1)] by simp
  then have g: "od_get ms i = Some m"
    using assms(2) by (simp add: wf_msgs_def od_get_member_distinct)
  have "last_val (bo_matches rs) i \<noteq> None"
  proof
    assume "last_val (bo_matches rs) i = None"
    then have "od_get ms i = od_get [] i"
      using parse_messages_lookup [OF assms(1), of i] by simp
    then show False using g by (simp add: od_get_def)
  qed
  then obtain n d t block where b: "last_val (bo_matches rs) i = Some (n, d, t, block)"
    by (cases "last_val (bo_matches rs) i") auto
  then obtain sigs where sigs: "parse_block block [] = Inr sigs"
    and m: "m = new_Message\<lparr> msg_id := i, msg_name := n, dlc := d, transmitter := t, signals := sigs \<rparr>"
    using parse_messages_lookup [OF assms(1), of i] g by auto
  show "\<exists>n d t s. m = new_Message\<lparr> msg_id := i, msg_name := n, dlc := d, transmitter := t, signals := s \<rparr>"
    using m by blast
  show "\<exists>sm. parse_signal sm = Inr sg" if "(nm, sg) \<in> set (signals m)"
  proof -
    have "distinct (od_keys sigs)"
      using parse_block_distinct [OF sigs] by (simp add: od_keys_def)
    then have s: "od_get sigs nm = Some sg"
      using that m by (simp add: od_get_member_distinct)
    then show ?thesis
      using parse_block_lookup [OF sigs, of nm]
      by (cases "last_val (sg_matches block) nm") (auto simp: od_get_def)
  qed
qed

lemma sets_default_is_key: "sets_default r \<Longrightarrow> msg_key r \<noteq> None \<or> sig_key r \<noteq> None"
  by (auto simp: sets_default_def split: option.splits)

lemma default_record_dropped:
  assumes "absent_field r (xs @ ys)" "sets_default r"
  shows "parse_dbc (xs @ r # ys) = parse_dbc (xs @ ys)"
proof -
  have k: "msg_key r \<noteq> None \<or> sig_key r \<noteq> None"
    using assms(2) by (rule sets_default_is_key)
  have p: "parse_messages (xs @ r # ys) [] = parse_messages (xs @ ys) []"
    by (rule parse_messages_drop [OF k])
  show ?thesis
  proof (cases "parse_messages (xs @ ys) []")
    case (Inl e)
    then show ?thesis unfolding parse_dbc_overlay p by simp
  next
    case (Inr ms)
    have "overlay (xs @ r # ys) ms = overlay (xs @ ys) ms"
      unfolding overlay_over
    proof (rule over_cong)
      fix i m assume m: "(i, m) \<in> set ms"
      from parse_messages_fresh(1) [OF Inr m]
      show "msg_overlay (xs @ r # ys) i m = msg_overlay (xs @ ys) i m"
        using default_msg_overlay [OF assms] by auto
      fix nm sg assume "(nm, sg) \<in> set (signals m)"
      from parse_messages_fresh(2) [OF Inr m this]
      show "sig_overlay (xs @ r # ys) i nm sg = sig_overlay (xs @ ys) i nm sg"
        using default_sig_overlay [OF assms] by auto
    qed
    then show ?thesis
      unfolding parse_dbc_overlay p Inr
      by (simp add: bu_match_drop [OF k] global_attr_drop [OF k])
  qed
qed

text \<open>
  Claim C6. The comparison of two cells normalizes both: a float that is a whole number
  becomes its integer, so a cell holding the whole number \<open>n\<close> as a float on one side
  and as an integer on the other is in no set of differing columns, neither in
  \<open>check_row_diff\<close> nor in the categorized diff. A field absent from the text holds the
  default its constructor gave it: a record that sets an absent field to its default
  leaves the parsed database as it is without the record, so nothing computed from
  the two databases can tell them apart.
\<close>

theorem whole_numbers_and_defaults_equal:
  "(whole n (old_row ! i) \<and> whole n (new_row ! i) \<longrightarrow>
      normalize_val (old_row ! i) = normalize_val (new_row ! i)
      \<and> (\<forall>has_diff cols. check_row_diff old_row new_row = Inr (has_diff, cols) \<longrightarrow> i \<notin> cols)
      \<and> (\<forall>ds. row_diffs old_row new_row = Inr ds \<longrightarrow> i \<notin> set ds))
   \<and> (absent_field r (xs @ ys) \<and> sets_default r \<longrightarrow>
        parse_dbc (xs @ r # ys) = parse_dbc (xs @ ys))"
  using whole_not_reported [of n old_row i new_row] normalize_whole [of n]
    default_record_dropped [of r xs ys]
  by auto

lemma ex_whole_rows:
  "whole 5 ([PFloat (Finite 5)] ! 0)" "whole 5 ([PInt 5] ! 0)"
  "check_row_diff [PFloat (Finite 5)] [PInt 5] = Inr (False, {})"
  "row_diffs [PFloat (Finite 5)] [PInt 5] = Inr []"
  by (simp_all add: whole_def check_row_diff_def row_diffs_def)

lemma ex_default_record:
  "absent_field (BA_BO_INT ''GenMsgCycleTime'' 256 0) (doc_head @ doc_tail)"
  "sets_default (BA_BO_INT ''GenMsgCycleTime'' 256 0)"
  by (simp_all add: doc_head_def doc_tail_def sets_default_def msg_overlay_def matches_defs
      last_val_def new_Message_def)

theorem whole_numbers_and_defaults_equal_witness:
  "normalize_val (PFloat (Finite 5)) = normalize_val (PInt 5)
   \<and> check_row_diff [PFloat (Finite 5)] [PInt 5] = Inr (False, {})
   \<and> row_diffs [PFloat (Finite 5)] [PInt 5] = Inr []
   \<and> parse_dbc (doc_head @ BA_BO_INT ''GenMsgCycleTime'' 256 0 # doc_tail)
     = parse_dbc (doc_head @ doc_tail)"
  using whole_numbers_and_defaults_equal [of 5 "[PFloat (Finite 5)]" 0 "[PInt 5]"
      "BA_BO_INT ''GenMsgCycleTime'' 256 0" doc_head doc_tail]
    ex_whole_rows ex_default_record
  by simp

subsection \<open>When the parser returns\<close>




















end
